theory Spec2Isabelle
  imports Main
begin

section \<open>Python strings\<close>

text \<open>
  A Python \<open>str\<close> is a sequence of Unicode code points, so a string is modelled as a list
  of code points (natural numbers). The character classes are the ones CPython 3.11
  (Unicode 14.0) uses: \<open>str.isspace\<close>, which is also what \<open>str.strip()\<close> removes and what
  \<open>\s\<close> matches in a \<open>str\<close> pattern; \<open>str.isdigit\<close>; and \<open>str.isdecimal\<close>, which is what
  \<open>\d\<close> matches in a \<open>str\<close> pattern. Each class is a list of inclusive code point ranges.
\<close>

type_synonym ustr = "nat list"

definition u :: "string \<Rightarrow> ustr" where
  "u s = map of_char s"

definition in_ranges :: "(nat \<times> nat) list \<Rightarrow> nat \<Rightarrow> bool" where
  "in_ranges rs c = list_ex (\<lambda>(lo, hi). lo \<le> c \<and> c \<le> hi) rs"

definition space_ranges :: "(nat \<times> nat) list" where
  "space_ranges = [(9, 13), (28, 32), (133, 133), (160, 160), (5760, 5760), (8192, 8202),
     (8232, 8233), (8239, 8239), (8287, 8287), (12288, 12288)]"

definition decimal_ranges :: "(nat \<times> nat) list" where
  "decimal_ranges = [(48, 57), (1632, 1641), (1776, 1785), (1984, 1993), (2406, 2415),
     (2534, 2543), (2662, 2671), (2790, 2799), (2918, 2927), (3046, 3055), (3174, 3183),
     (3302, 3311), (3430, 3439), (3558, 3567), (3664, 3673), (3792, 3801), (3872, 3881),
     (4160, 4169), (4240, 4249), (6112, 6121), (6160, 6169), (6470, 6479), (6608, 6617),
     (6784, 6793), (6800, 6809), (6992, 7001), (7088, 7097), (7232, 7241), (7248, 7257),
     (42528, 42537), (43216, 43225), (43264, 43273), (43472, 43481), (43504, 43513),
     (43600, 43609), (44016, 44025), (65296, 65305), (66720, 66729), (68912, 68921),
     (69734, 69743), (69872, 69881), (69942, 69951), (70096, 70105), (70384, 70393),
     (70736, 70745), (70864, 70873), (71248, 71257), (71360, 71369), (71472, 71481),
     (71904, 71913), (72016, 72025), (72784, 72793), (73040, 73049), (73120, 73129),
     (92768, 92777), (92864, 92873), (93008, 93017), (120782, 120831), (123200, 123209),
     (123632, 123641), (125264, 125273), (130032, 130041)]"

definition digit_ranges :: "(nat \<times> nat) list" where
  "digit_ranges = [(48, 57), (178, 179), (185, 185), (1632, 1641), (1776, 1785),
     (1984, 1993), (2406, 2415), (2534, 2543), (2662, 2671), (2790, 2799), (2918, 2927),
     (3046, 3055), (3174, 3183), (3302, 3311), (3430, 3439), (3558, 3567), (3664, 3673),
     (3792, 3801), (3872, 3881), (4160, 4169), (4240, 4249), (4969, 4977), (6112, 6121),
     (6160, 6169), (6470, 6479), (6608, 6618), (6784, 6793), (6800, 6809), (6992, 7001),
     (7088, 7097), (7232, 7241), (7248, 7257), (8304, 8304), (8308, 8313), (8320, 8329),
     (9312, 9320), (9332, 9340), (9352, 9360), (9450, 9450), (9461, 9469), (9471, 9471),
     (10102, 10110), (10112, 10120), (10122, 10130), (42528, 42537), (43216, 43225),
     (43264, 43273), (43472, 43481), (43504, 43513), (43600, 43609), (44016, 44025),
     (65296, 65305), (66720, 66729), (68160, 68163), (68912, 68921), (69216, 69224),
     (69714, 69722), (69734, 69743), (69872, 69881), (69942, 69951), (70096, 70105),
     (70384, 70393), (70736, 70745), (70864, 70873), (71248, 71257), (71360, 71369),
     (71472, 71481), (71904, 71913), (72016, 72025), (72784, 72793), (73040, 73049),
     (73120, 73129), (92768, 92777), (92864, 92873), (93008, 93017), (120782, 120831),
     (123200, 123209), (123632, 123641), (125264, 125273), (127232, 127242),
     (130032, 130041)]"

definition isspace_chr :: "nat \<Rightarrow> bool" where
  "isspace_chr c = in_ranges space_ranges c"

definition isdecimal_chr :: "nat \<Rightarrow> bool" where
  "isdecimal_chr c = in_ranges decimal_ranges c"

definition isdigit_chr :: "nat \<Rightarrow> bool" where
  "isdigit_chr c = in_ranges digit_ranges c"

text \<open>\<open>s.isdigit()\<close>: every character is a digit and there is at least one.\<close>

definition isdigit :: "ustr \<Rightarrow> bool" where
  "isdigit s = (s \<noteq> [] \<and> list_all isdigit_chr s)"

text \<open>\<open>s.strip()\<close> with no argument removes leading and trailing whitespace.\<close>

definition lstrip :: "ustr \<Rightarrow> ustr" where
  "lstrip s = dropWhile isspace_chr s"

definition rstrip :: "ustr \<Rightarrow> ustr" where
  "rstrip s = rev (dropWhile isspace_chr (rev s))"

definition strip :: "ustr \<Rightarrow> ustr" where
  "strip s = rstrip (lstrip s)"

text \<open>\<open>s.split(sep)\<close> for a one-character separator: always at least one piece.\<close>

fun split_chr :: "nat \<Rightarrow> ustr \<Rightarrow> ustr list" where
  "split_chr sep [] = [[]]"
| "split_chr sep (c # cs) =
     (if c = sep then [] # split_chr sep cs
      else (case split_chr sep cs of [] \<Rightarrow> [[c]] | l # ls \<Rightarrow> (c # l) # ls))"

text \<open>\<open>sep.join(xs)\<close>.\<close>

fun join :: "ustr \<Rightarrow> ustr list \<Rightarrow> ustr" where
  "join sep [] = []"
| "join sep [x] = x"
| "join sep (x # y # ys) = x @ sep @ join sep (y # ys)"

text \<open>\<open>s.startswith(p)\<close>.\<close>

definition startswith :: "ustr \<Rightarrow> ustr \<Rightarrow> bool" where
  "startswith s p = (take (length p) s = p)"

text \<open>\<open>str(n)\<close> for a non-negative integer: its decimal digits.\<close>

fun str_nat :: "nat \<Rightarrow> ustr" where
  "str_nat n = (if n < 10 then [48 + n] else str_nat (n div 10) @ [48 + n mod 10])"

declare str_nat.simps [simp del]

abbreviation (input) NL :: nat where
  "NL \<equiv> 10"

section \<open>The time-interval pattern\<close>

text \<open>
  The pattern \<^verbatim>\<open>\d{2}:\d{2}:\d{2},\d{3}\s*-->\s*\d{2}:\d{2}:\d{2},\d{3}\<close> is a sequence of
  items, each a character class repeated a fixed number of times or a greedy star.
  \<open>re_match\<close> is the backtracking matcher anchored at the start of the string, as
  \<open>re.match\<close> is: it returns the text after the match, or \<open>None\<close>.
\<close>

datatype cclass = Decimal | Space | Lit nat

datatype item = Rep cclass nat | Star cclass

fun in_class :: "cclass \<Rightarrow> nat \<Rightarrow> bool" where
  "in_class Decimal c = isdecimal_chr c"
| "in_class Space c = isspace_chr c"
| "in_class (Lit k) c = (c = k)"

fun re_match :: "item list \<Rightarrow> ustr \<Rightarrow> ustr option" where
  "re_match [] s = Some s"
| "re_match (Rep k n # its) s =
     (if n \<le> length s \<and> list_all (in_class k) (take n s) then re_match its (drop n s)
      else None)"
| "re_match (Star k # its) [] = re_match its []"
| "re_match (Star k # its) (c # cs) =
     (if in_class k c then
        (case re_match (Star k # its) cs of Some r \<Rightarrow> Some r | None \<Rightarrow> re_match its (c # cs))
      else re_match its (c # cs))"

definition timestamp_items :: "item list" where
  "timestamp_items = [Rep Decimal 2, Rep (Lit 58) 1, Rep Decimal 2, Rep (Lit 58) 1,
     Rep Decimal 2, Rep (Lit 44) 1, Rep Decimal 3]"

definition timestamp_pattern :: "item list" where
  "timestamp_pattern = timestamp_items @ [Star Space, Rep (Lit 45) 2, Rep (Lit 62) 1, Star Space]
     @ timestamp_items"

definition ts_match :: "ustr \<Rightarrow> bool" where
  "ts_match s = (re_match timestamp_pattern s \<noteq> None)"

section \<open>The two repair passes of cleanup_srt.py\<close>

text \<open>
  Both passes walk \<open>lines\<close> with an index \<open>i\<close> and look one line ahead. The loop is a
  recursion on the lines from \<open>i\<close> on: \<open>l\<close> is \<open>lines[i]\<close>, \<open>rest\<close> is what follows it, and
  \<open>i + 1 < len(lines)\<close> is \<open>rest \<noteq> []\<close>. The first argument is the output buffer.
\<close>

fun clean_loop :: "ustr list \<Rightarrow> ustr list \<Rightarrow> ustr list" where
  "clean_loop cleaned_lines [] = cleaned_lines"
| "clean_loop cleaned_lines (l # rest) =
     (if strip l = [] \<and> cleaned_lines = [] then clean_loop cleaned_lines rest
      else if isdigit (strip l) then
        (if rest \<noteq> [] \<and> isdigit (strip (hd rest)) then clean_loop cleaned_lines rest
         else if rest \<noteq> [] \<and> ts_match (strip (hd rest))
           then clean_loop (cleaned_lines @ [strip l]) rest
         else clean_loop cleaned_lines rest)
      else clean_loop (cleaned_lines @ [strip l]) rest)"

definition clean_srt_content :: "ustr \<Rightarrow> ustr" where
  "clean_srt_content content = join [NL] (clean_loop [] (split_chr NL (strip content)))"

fun fix_loop :: "ustr list \<Rightarrow> nat \<Rightarrow> ustr list \<Rightarrow> ustr list" where
  "fix_loop fixed_lines subtitle_number [] = fixed_lines"
| "fix_loop fixed_lines subtitle_number (l # rest) =
     (if strip l = [] \<and> fixed_lines = [] then fix_loop fixed_lines subtitle_number rest
      else if isdigit (strip l) then
        (if rest \<noteq> [] \<and> ts_match (strip (hd rest))
           then fix_loop (fixed_lines @ [str_nat subtitle_number]) (subtitle_number + 1) rest
         else fix_loop fixed_lines subtitle_number rest)
      else fix_loop (fixed_lines @ [strip l]) subtitle_number rest)"

definition fix_srt_numbering :: "ustr \<Rightarrow> ustr" where
  "fix_srt_numbering content = join [NL] (fix_loop [] 1 (split_chr NL (strip content)))"

section \<open>Timestamp restoration (cleanup_srt.py)\<close>

text \<open>
  \<open>re.findall\<close> scans the text from left to right: where the pattern matches it records the
  matched text and resumes at the end of the match, elsewhere it moves on by one
  character. \<open>findall_skip pat k s\<close> scans \<open>s\<close> after skipping \<open>k\<close> characters that belong to
  the match just recorded.
\<close>

fun findall_skip :: "item list \<Rightarrow> nat \<Rightarrow> ustr \<Rightarrow> ustr list" where
  "findall_skip pat k [] = (if k = 0 \<and> re_match pat [] \<noteq> None then [[]] else [])"
| "findall_skip pat k (c # cs) =
     (if 0 < k then findall_skip pat (k - 1) cs
      else (case re_match pat (c # cs) of
              None \<Rightarrow> findall_skip pat 0 cs
            | Some r \<Rightarrow> take (length (c # cs) - length r) (c # cs)
                # findall_skip pat (length (c # cs) - length r - 1) cs))"

definition findall :: "item list \<Rightarrow> ustr \<Rightarrow> ustr list" where
  "findall pat s = findall_skip pat 0 s"

definition extract_timestamps_from_content :: "ustr \<Rightarrow> ustr list" where
  "extract_timestamps_from_content content = findall timestamp_pattern content"

text \<open>\<open>s.replace(old, new, 1)\<close>: the first occurrence of \<open>old\<close> in \<open>s\<close> is replaced.\<close>

fun replace_first :: "ustr \<Rightarrow> ustr \<Rightarrow> ustr \<Rightarrow> ustr" where
  "replace_first old new [] = (if old = [] then new else [])"
| "replace_first old new (c # cs) =
     (if startswith (c # cs) old then new @ drop (length old) (c # cs)
      else c # replace_first old new cs)"

text \<open>The loop over \<open>zip(source_timestamps, processed_timestamps)\<close>.\<close>

fun replace_loop :: "ustr \<Rightarrow> (ustr \<times> ustr) list \<Rightarrow> ustr" where
  "replace_loop result_content [] = result_content"
| "replace_loop result_content ((source_ts, processed_ts) # rest) =
     replace_loop (replace_first processed_ts source_ts result_content) rest"

text \<open>
  Exceptions are values. Reading the source file is a parameter \<open>read_text\<close>: the content
  of the file at a path, or the exception that \<open>open\<close> or \<open>read\<close> raises (a missing or
  unreadable file, bytes that are not UTF-8). Printing is a parameter too: \<open>print_out m\<close>
  is \<open>None\<close> when the message is written and \<open>Some e\<close> when \<open>print\<close> raises \<open>e\<close> (every
  message of the function starts with a character outside ASCII, which a standard output
  with a narrower encoding refuses with \<open>UnicodeEncodeError\<close>). The four messages are
  \<^item> \<open>NoTimestampsFound b\<close>: no timestamps found in source file \<open>b\<close>, the base name of the path;
  \<^item> \<open>CountMismatch m n\<close>: timestamp count mismatch, source \<open>m\<close>, processed \<open>n\<close>;
  \<^item> \<open>Replaced m\<close>: replaced \<open>m\<close> timestamps from source;
  \<^item> \<open>CouldNotReplace e\<close>: could not replace timestamps, with the exception \<open>e\<close>.

  \<open>replace_timestamps_try\<close> is the body of the \<open>try\<close> block: an exception raised in it,
  also by one of its \<open>print\<close> calls, goes to the handler.
  \<open>replace_timestamps_with_originals\<close> adds the handler \<open>except Exception\<close>, which prints
  \<open>CouldNotReplace e\<close> and returns the processed content; an exception raised by that
  \<open>print\<close> leaves the function.
\<close>

datatype py_exn = IndexError | OSError | UnicodeDecodeError | UnicodeEncodeError

datatype message = NoTimestampsFound ustr | CountMismatch nat nat | Replaced nat
  | CouldNotReplace py_exn

text \<open>\<open>os.path.basename\<close> on a POSIX system: what follows the last \<open>/\<close>.\<close>

definition basename :: "ustr \<Rightarrow> ustr" where
  "basename p = rev (takeWhile (\<lambda>c. c \<noteq> 47) (rev p))"

definition replace_timestamps_try ::
  "(message \<Rightarrow> py_exn option) \<Rightarrow> (ustr \<Rightarrow> py_exn + ustr) \<Rightarrow> ustr \<Rightarrow> ustr \<Rightarrow> py_exn + ustr" where
  "replace_timestamps_try print_out read_text processed_content source_file_path =
     (case read_text source_file_path of
        Inl e \<Rightarrow> Inl e
      | Inr source_content \<Rightarrow>
          (let source_timestamps = extract_timestamps_from_content source_content in
           if source_timestamps = [] then
             (case print_out (NoTimestampsFound (basename source_file_path)) of
                Some e \<Rightarrow> Inl e
              | None \<Rightarrow> Inr processed_content)
           else
             (let processed_timestamps = extract_timestamps_from_content processed_content in
              if length source_timestamps \<noteq> length processed_timestamps then
                (case print_out (CountMismatch (length source_timestamps)
                                   (length processed_timestamps)) of
                   Some e \<Rightarrow> Inl e
                 | None \<Rightarrow> Inr processed_content)
              else
                (let result_content =
                       replace_loop processed_content (zip source_timestamps processed_timestamps)
                 in case print_out (Replaced (length source_timestamps)) of
                      Some e \<Rightarrow> Inl e
                    | None \<Rightarrow> Inr result_content))))"

definition replace_timestamps_with_originals ::
  "(message \<Rightarrow> py_exn option) \<Rightarrow> (ustr \<Rightarrow> py_exn + ustr) \<Rightarrow> ustr \<Rightarrow> ustr \<Rightarrow> py_exn + ustr" where
  "replace_timestamps_with_originals print_out read_text processed_content source_file_path =
     (case replace_timestamps_try print_out read_text processed_content source_file_path of
        Inr result_content \<Rightarrow> Inr result_content
      | Inl e \<Rightarrow>
          (case print_out (CouldNotReplace e) of
             Some e' \<Rightarrow> Inl e'
           | None \<Rightarrow> Inr processed_content))"

section \<open>Locating the original file (cleanup_srt.py)\<close>

text \<open>
  \<open>pathlib.Path\<close> on a POSIX system. A path is its root (empty, \<open>/\<close> or \<open>//\<close>) and its
  names; parsing splits at \<open>/\<close> and drops empty names and \<open>.\<close>; exactly two leading
  slashes are kept as the root \<open>//\<close>. \<open>path_parents p idx\<close> is \<open>p.parents[idx]\<close> for
  \<open>idx \<ge> 0\<close>, which raises \<open>IndexError\<close> when the path has no more than \<open>idx\<close> names.
  \<open>path_join p key\<close> is \<open>p / key\<close> for a string \<open>key\<close>. Code point 47 is \<open>/\<close>, 46 is \<open>.\<close>.
\<close>

datatype ppath = PPath (root: ustr) (names: "ustr list")

definition leading_seps :: "ustr \<Rightarrow> nat" where
  "leading_seps s = length (takeWhile (\<lambda>c. c = 47) s)"

definition parse_path :: "ustr \<Rightarrow> ppath" where
  "parse_path s =
     PPath (if leading_seps s = 0 then [] else if leading_seps s = 2 then u ''//'' else u ''/'')
           (filter (\<lambda>x. x \<noteq> [] \<and> x \<noteq> u ''.'') (split_chr 47 s))"

definition path_parent :: "ppath \<Rightarrow> ppath" where
  "path_parent p = (if names p = [] then p else PPath (root p) (butlast (names p)))"

definition path_name :: "ppath \<Rightarrow> ustr" where
  "path_name p = (if names p = [] then [] else last (names p))"

text \<open>\<open>s.rfind(c)\<close>: the last index of \<open>c\<close>, \<open>None\<close> for Python's \<open>-1\<close>.\<close>

fun rfind :: "nat \<Rightarrow> ustr \<Rightarrow> nat option" where
  "rfind c [] = None"
| "rfind c (x # xs) =
     (case rfind c xs of Some i \<Rightarrow> Some (Suc i) | None \<Rightarrow> if x = c then Some 0 else None)"

definition path_stem :: "ppath \<Rightarrow> ustr" where
  "path_stem p =
     (case rfind 46 (path_name p) of
        None \<Rightarrow> path_name p
      | Some i \<Rightarrow> if 0 < i \<and> i + 1 < length (path_name p) then take i (path_name p)
                  else path_name p)"

definition path_parents :: "ppath \<Rightarrow> nat \<Rightarrow> py_exn + ppath" where
  "path_parents p idx =
     (if length (names p) \<le> idx then Inl IndexError
      else Inr (PPath (root p) (take (length (names p) - idx - 1) (names p))))"

definition path_join :: "ppath \<Rightarrow> ustr \<Rightarrow> ppath" where
  "path_join p key =
     (if root (parse_path key) \<noteq> [] then parse_path key
      else PPath (root p) (names p @ names (parse_path key)))"

definition path_str :: "ppath \<Rightarrow> ustr" where
  "path_str p = (if root p = [] \<and> names p = [] then u ''.'' else root p @ join (u ''/'') (names p))"

text \<open>\<open>s.replace(old, new)\<close>: every occurrence of \<open>old\<close>, left to right, without overlap.\<close>

function str_replace :: "ustr \<Rightarrow> ustr \<Rightarrow> ustr \<Rightarrow> ustr" where
  "str_replace old new s =
     (if old = [] then new @ concat (map (\<lambda>c. c # new) s)
      else if s = [] then []
      else if startswith s old then new @ str_replace old new (drop (length old) s)
      else hd s # str_replace old new (tl s))"
  by pat_completeness auto
termination
  by (relation "measure (\<lambda>(old, new, s). length s)") (auto simp: startswith_def)

declare str_replace.simps [simp del]

definition find_source_file :: "ustr \<Rightarrow> py_exn + ustr" where
  "find_source_file processed_file_path =
     (let processed_path = parse_path processed_file_path;
          series_name = path_name (path_parent processed_path);
          original_filename = str_replace (u ''_telugu'') [] (path_stem processed_path);
          original_filename_with_ext = original_filename @ u ''.srt''
      in case path_parents processed_path 2 of
           Inl e \<Rightarrow> Inl e
         | Inr base_folder \<Rightarrow>
             Inr (path_str (path_join (path_join base_folder series_name) original_filename_with_ext)))"

section \<open>The driver's sanitizer (translate.py)\<close>

text \<open>
  \<open>save_single_transliterated_file\<close> is modelled up to the content it hands to
  \<open>save_transliterated_srt\<close>, which writes it as it is; the output path and the write are
  not modelled. \<open>contains sub s\<close> is \<open>sub in s\<close>. The loop carries \<open>cleaned_content\<close> and
  \<open>subtitle_found\<close>.
\<close>

fun contains :: "ustr \<Rightarrow> ustr \<Rightarrow> bool" where
  "contains sub [] = (sub = [])"
| "contains sub (c # cs) = (startswith (c # cs) sub \<or> contains sub cs)"

fun save_single_loop :: "ustr \<Rightarrow> ustr list \<Rightarrow> bool \<Rightarrow> ustr list \<Rightarrow> ustr list" where
  "save_single_loop series_name cleaned_content subtitle_found [] = cleaned_content"
| "save_single_loop series_name cleaned_content subtitle_found (l # rest) =
     (if strip l \<noteq> [] \<and> isdigit (strip l) then
        (if \<not> subtitle_found \<and> strip l \<noteq> u ''1''
           then save_single_loop series_name (cleaned_content @ [u ''1'', strip l]) True rest
         else save_single_loop series_name (cleaned_content @ [strip l]) subtitle_found rest)
      else if strip l \<noteq> [] \<and> contains (u '':'') (strip l) \<and> contains (u ''-->'') (strip l)
        then save_single_loop series_name (cleaned_content @ [strip l]) subtitle_found rest
      else if strip l \<noteq> [] \<and> \<not> startswith (strip l) (u ''==='')
          \<and> \<not> startswith (strip l) series_name
        then save_single_loop series_name (cleaned_content @ [strip l]) subtitle_found rest
      else save_single_loop series_name cleaned_content subtitle_found rest)"

definition save_single_transliterated_file :: "ustr \<Rightarrow> ustr \<Rightarrow> ustr" where
  "save_single_transliterated_file transliterated_content series_name =
     join [NL] (save_single_loop series_name [] False (split_chr NL (strip transliterated_content)))"

section \<open>Auxiliary definitions for the proofs\<close>

text \<open>
  \<open>clean_out\<close> and \<open>fix_out\<close> are what the two loops append to their buffer; the flag
  says whether the buffer is still empty. \<open>stripped\<close> holds of a line that \<open>strip\<close> leaves
  alone, \<open>trim\<close> removes trailing empty lines, and \<open>numbered n\<close> holds of a list of lines
  whose numeric lines count up from \<open>n\<close>, each followed by a time-interval line.
\<close>

definition stripped :: "ustr \<Rightarrow> bool" where
  "stripped l = (l = [] \<or> (\<not> isspace_chr (hd l) \<and> \<not> isspace_chr (last l)))"

fun clean_out :: "bool \<Rightarrow> ustr list \<Rightarrow> ustr list" where
  "clean_out e [] = []"
| "clean_out e (l # rest) =
     (if strip l = [] \<and> e then clean_out e rest
      else if isdigit (strip l) then
        (if rest \<noteq> [] \<and> isdigit (strip (hd rest)) then clean_out e rest
         else if rest \<noteq> [] \<and> ts_match (strip (hd rest)) then strip l # clean_out False rest
         else clean_out e rest)
      else strip l # clean_out False rest)"

fun fix_out :: "bool \<Rightarrow> nat \<Rightarrow> ustr list \<Rightarrow> ustr list" where
  "fix_out e n [] = []"
| "fix_out e n (l # rest) =
     (if strip l = [] \<and> e then fix_out e n rest
      else if isdigit (strip l) then
        (if rest \<noteq> [] \<and> ts_match (strip (hd rest)) then str_nat n # fix_out False (n + 1) rest
         else fix_out e n rest)
      else strip l # fix_out False n rest)"

fun numbered :: "nat \<Rightarrow> ustr list \<Rightarrow> bool" where
  "numbered n [] = True"
| "numbered n (l # rest) =
     (if isdigit l then l = str_nat n \<and> rest \<noteq> [] \<and> ts_match (hd rest) \<and> numbered (n + 1) rest
      else numbered n rest)"

definition trim :: "ustr list \<Rightarrow> ustr list" where
  "trim xs = rev (dropWhile (\<lambda>l. l = []) (rev xs))"

section \<open>Well-formed documents\<close>






section \<open>The naming convention as the specification words it\<close>

text \<open>
  The specification recovers the base name by stripping the known suffix \<open>_telugu\<close> from
  the end of the stem. \<open>source_file_by_suffix\<close> is \<open>find_source_file\<close> with that reading
  (\<open>str.removesuffix\<close>) in place of \<open>str.replace\<close>.
\<close>

definition endswith :: "ustr \<Rightarrow> ustr \<Rightarrow> bool" where
  "endswith s p = (length p \<le> length s \<and> drop (length s - length p) s = p)"

definition removesuffix :: "ustr \<Rightarrow> ustr \<Rightarrow> ustr" where
  "removesuffix s p = (if p \<noteq> [] \<and> endswith s p then take (length s - length p) s else s)"

definition source_file_by_suffix :: "ustr \<Rightarrow> py_exn + ustr" where
  "source_file_by_suffix processed_file_path =
     (let processed_path = parse_path processed_file_path;
          series_name = path_name (path_parent processed_path);
          original_filename = removesuffix (path_stem processed_path) (u ''_telugu'')
      in case path_parents processed_path 2 of
           Inl e \<Rightarrow> Inl e
         | Inr base_folder \<Rightarrow>
             Inr (path_str (path_join (path_join base_folder series_name)
                    (original_filename @ u ''.srt''))))"

section \<open>Facts about the string operations and the loops\<close>


lemma isspace_chr_ascii: "c < 128 \<Longrightarrow> isspace_chr c = (9 \<le> c \<and> c \<le> 13 \<or> 28 \<le> c \<and> c \<le> 32)"
  by (auto simp: isspace_chr_def in_ranges_def space_ranges_def)

lemma isdigit_chr_ascii: "c < 128 \<Longrightarrow> isdigit_chr c = (48 \<le> c \<and> c \<le> 57)"
  by (auto simp: isdigit_chr_def in_ranges_def digit_ranges_def)

lemma isdecimal_chr_ascii: "c < 128 \<Longrightarrow> isdecimal_chr c = (48 \<le> c \<and> c \<le> 57)"
  by (auto simp: isdecimal_chr_def in_ranges_def decimal_ranges_def)

lemma isspace_NL: "isspace_chr NL"
  by (simp add: isspace_chr_ascii)

lemma split_chr_nonempty: "split_chr sep s \<noteq> []"
  by (induction s) (auto split: list.splits)

lemma split_chr_no_sep: "l \<in> set (split_chr sep s) \<Longrightarrow> sep \<notin> set l"
  by (induction s arbitrary: l) (auto split: list.splits if_splits)

lemma join_split_chr: "join [sep] (split_chr sep s) = s"
proof (induction s)
  case Nil
  show ?case by simp
next
  case (Cons c cs)
  obtain l ls where sp: "split_chr sep cs = l # ls"
    using split_chr_nonempty [of sep cs] by (cases "split_chr sep cs") auto
  show ?case using Cons sp by (cases ls) auto
qed

lemma split_chr_append_nosep:
  "sep \<notin> set x \<Longrightarrow> split_chr sep (x @ sep # s) = x # split_chr sep s"
  by (induction x) auto

lemma split_chr_nosep: "sep \<notin> set x \<Longrightarrow> split_chr sep x = [x]"
  by (induction x) auto

lemma split_chr_join:
  "xs \<noteq> [] \<Longrightarrow> \<forall>l \<in> set xs. sep \<notin> set l \<Longrightarrow> split_chr sep (join [sep] xs) = xs"
proof (induction xs)
  case Nil
  then show ?case by simp
next
  case (Cons x xs)
  show ?case
  proof (cases xs)
    case Nil
    then show ?thesis using Cons.prems by (simp add: split_chr_nosep)
  next
    case (Cons y ys)
    then show ?thesis using Cons.IH Cons.prems by (simp add: split_chr_append_nosep)
  qed
qed

lemma length_split_chr: "length (split_chr sep s) = Suc (count_list s sep)"
  by (induction s) (auto split: list.splits simp: split_chr_nonempty)

lemma lstrip_id: "s = [] \<or> \<not> isspace_chr (hd s) \<Longrightarrow> lstrip s = s"
  by (cases s) (auto simp: lstrip_def)

lemma rstrip_id: "s = [] \<or> \<not> isspace_chr (last s) \<Longrightarrow> rstrip s = s"
  by (cases s rule: rev_cases) (auto simp: rstrip_def)

lemma strip_id: "stripped s \<Longrightarrow> strip s = s"
  by (auto simp: stripped_def strip_def lstrip_id rstrip_id)

lemma rstrip_prefix: "\<exists>t. s = rstrip s @ t \<and> list_all isspace_chr t"
proof -
  have "rev s = takeWhile isspace_chr (rev s) @ dropWhile isspace_chr (rev s)" by simp
  then have "s = rev (dropWhile isspace_chr (rev s)) @ rev (takeWhile isspace_chr (rev s))"
    by (metis rev_append rev_rev_ident)
  moreover have "list_all isspace_chr (rev (takeWhile isspace_chr (rev s)))"
    by (simp add: list_all_iff) (meson set_takeWhileD)
  ultimately show ?thesis unfolding rstrip_def by blast
qed

lemma rstrip_last: "rstrip s \<noteq> [] \<Longrightarrow> \<not> isspace_chr (last (rstrip s))"
  unfolding rstrip_def by (simp add: last_rev hd_dropWhile)

lemma lstrip_hd: "lstrip s \<noteq> [] \<Longrightarrow> \<not> isspace_chr (hd (lstrip s))"
  unfolding lstrip_def by (simp add: hd_dropWhile)

lemma rstrip_hd: "rstrip s \<noteq> [] \<Longrightarrow> hd (rstrip s) = hd s"
  using rstrip_prefix [of s] by (metis hd_append2)

lemma stripped_strip: "stripped (strip s)"
  unfolding stripped_def strip_def
  by (metis rstrip_last rstrip_hd lstrip_hd rstrip_def dropWhile.simps(1) rev.simps(1))

lemma strip_strip: "strip (strip s) = strip s"
  by (simp add: strip_id stripped_strip)

lemma set_lstrip: "set (lstrip s) \<subseteq> set s"
  unfolding lstrip_def by (auto dest: set_dropWhileD)

lemma set_rstrip: "set (rstrip s) \<subseteq> set s"
  unfolding rstrip_def by (auto dest: set_dropWhileD)

lemma set_strip: "set (strip s) \<subseteq> set s"
  unfolding strip_def using set_lstrip set_rstrip by blast

lemma strip_Nil: "strip [] = []"
  by (simp add: strip_def lstrip_def rstrip_def)

lemma count_lstrip: "count_list (lstrip s) c \<le> count_list s c"
  unfolding lstrip_def by (induction s) auto

lemma count_rstrip: "count_list (rstrip s) c \<le> count_list s c"
proof -
  obtain t where "s = rstrip s @ t" using rstrip_prefix by blast
  then have "count_list s c = count_list (rstrip s) c + count_list t c"
    by (metis count_list_append)
  then show ?thesis by simp
qed

lemma count_strip: "count_list (strip s) c \<le> count_list s c"
  unfolding strip_def using count_lstrip count_rstrip le_trans by blast

lemma str_nat_digits: "c \<in> set (str_nat n) \<Longrightarrow> 48 \<le> c \<and> c \<le> 57"
proof (induction n arbitrary: c rule: str_nat.induct)
  case (1 n)
  show ?case
  proof (cases "n < 10")
    case True
    then show ?thesis using "1.prems" by (simp add: str_nat.simps [of n])
  next
    case False
    then have "c \<in> set (str_nat (n div 10)) \<or> c = 48 + n mod 10"
      using "1.prems" by (auto simp: str_nat.simps [of n])
    then show ?thesis
    proof
      assume "c \<in> set (str_nat (n div 10))"
      then show ?thesis using "1.IH" False by blast
    next
      assume "c = 48 + n mod 10"
      moreover have "n mod 10 < 10" by simp
      ultimately show ?thesis by linarith
    qed
  qed
qed

lemma str_nat_nonempty: "str_nat n \<noteq> []"
  by (simp add: str_nat.simps [of n])

lemma isdigit_chr_str_nat: "c \<in> set (str_nat n) \<Longrightarrow> isdigit_chr c"
proof -
  assume "c \<in> set (str_nat n)"
  then have "48 \<le> c \<and> c \<le> 57" by (rule str_nat_digits)
  then show ?thesis by (simp add: isdigit_chr_ascii)
qed

lemma isdigit_str_nat: "isdigit (str_nat n)"
  unfolding isdigit_def list_all_iff
  by (simp add: str_nat_nonempty isdigit_chr_str_nat)

lemma NL_notin_str_nat: "NL \<notin> set (str_nat n)"
  using str_nat_digits [of NL n] by auto

lemma stripped_str_nat: "stripped (str_nat n)"
proof -
  have "hd (str_nat n) \<in> set (str_nat n)" "last (str_nat n) \<in> set (str_nat n)"
    by (simp_all add: str_nat_nonempty)
  then have "48 \<le> hd (str_nat n)" "hd (str_nat n) \<le> 57" "48 \<le> last (str_nat n)" "last (str_nat n) \<le> 57"
    using str_nat_digits by blast+
  then show ?thesis by (simp add: stripped_def isspace_chr_ascii)
qed

lemma re_match_lit_at:
  "re_match (Rep k n # Rep (Lit c) 1 # its) s \<noteq> None \<Longrightarrow> n < length s \<and> s ! n = c"
  by (auto split: if_splits simp: take_Suc_conv_app_nth hd_drop_conv_nth list_all_iff
        dest!: leD intro: Suc_leI)

lemma ts_match_colon: "ts_match s \<Longrightarrow> 2 < length s \<and> s ! 2 = 58"
  unfolding ts_match_def timestamp_pattern_def timestamp_items_def
  using re_match_lit_at [of Decimal 2 58 _ s] by simp

lemma ts_match_nonempty: "ts_match s \<Longrightarrow> s \<noteq> []"
  using ts_match_colon by fastforce

lemma ts_match_not_isdigit: "ts_match s \<Longrightarrow> \<not> isdigit s"
proof
  assume m: "ts_match s" and d: "isdigit s"
  from m have "2 < length s" "s ! 2 = 58" using ts_match_colon by blast+
  then have "58 \<in> set s" by (metis nth_mem)
  then have "isdigit_chr 58" using d by (simp add: isdigit_def list_all_iff)
  then show False by (simp add: isdigit_chr_ascii)
qed

lemma re_match_append: "re_match its s \<noteq> None \<Longrightarrow> re_match its (s @ e) \<noteq> None"
proof (induction its s arbitrary: e rule: re_match.induct)
  case (1 s)
  then show ?case by simp
next
  case (2 k n its s)
  then show ?case by (auto split: if_splits)
next
  case (3 k its)
  then have r: "re_match its e \<noteq> None" by simp
  show ?case
  proof (cases e)
    case Nil
    then show ?thesis using r by simp
  next
    case (Cons c cs)
    then show ?thesis using r by (auto split: option.splits)
  qed
next
  case (4 k its c cs)
  show ?case
  proof (cases "in_class k c")
    case False
    then have "re_match its (c # cs) \<noteq> None" using "4.prems" by simp
    then have "re_match its ((c # cs) @ e) \<noteq> None" using "4.IH"(3) False by blast
    then show ?thesis using False by simp
  next
    case True
    show ?thesis
    proof (cases "re_match (Star k # its) (cs @ e)")
      case (Some r)
      then show ?thesis using True by simp
    next
      case None
      then have "re_match (Star k # its) cs = None" using "4.IH"(1) True by blast
      then have "re_match its (c # cs) \<noteq> None" using "4.prems" True by simp
      then have "re_match its ((c # cs) @ e) \<noteq> None"
        using "4.IH"(2) True \<open>re_match (Star k # its) cs = None\<close> by blast
      then show ?thesis using True None by simp
    qed
  qed
qed

lemma ts_match_append: "ts_match iv \<Longrightarrow> ts_match (iv @ extra)"
  unfolding ts_match_def by (rule re_match_append)

lemma not_isdigit_Nil: "\<not> isdigit []"
  by (simp add: isdigit_def)

lemma clean_loop_out: "clean_loop acc ls = acc @ clean_out (acc = []) ls"
  by (induction ls arbitrary: acc) (auto simp: not_isdigit_Nil)

lemma fix_loop_out: "fix_loop acc n ls = acc @ fix_out (acc = []) n ls"
  by (induction ls arbitrary: acc n) (auto simp: not_isdigit_Nil)

lemma clean_out_nondigit_False:
  "filter (\<lambda>l. \<not> isdigit l) (clean_out False ls) = filter (\<lambda>l. \<not> isdigit l) (map strip ls)"
  by (induction ls) auto

lemma fix_out_nondigit_False:
  "filter (\<lambda>l. \<not> isdigit l) (fix_out False n ls) = filter (\<lambda>l. \<not> isdigit l) (map strip ls)"
  by (induction ls arbitrary: n) (auto simp: isdigit_str_nat)

lemma clean_out_nondigit_True:
  "filter (\<lambda>l. \<not> isdigit l) (clean_out True ls) =
   dropWhile (\<lambda>l. l = []) (filter (\<lambda>l. \<not> isdigit l) (map strip ls))"
proof (induction ls)
  case Nil
  show ?case by simp
next
  case (Cons l rest)
  show ?case
  proof (cases "rest \<noteq> [] \<and> ts_match (strip (hd rest))")
    case True
    then obtain t rest' where r: "rest = t # rest'" and t: "ts_match (strip t)"
      by (cases rest) auto
    have "strip t \<noteq> []" "\<not> isdigit (strip t)"
      using t ts_match_nonempty ts_match_not_isdigit by blast+
    then show ?thesis using Cons r
      by (auto simp: clean_out_nondigit_False not_isdigit_Nil)
  next
    case False
    then show ?thesis using Cons by (auto simp: clean_out_nondigit_False not_isdigit_Nil)
  qed
qed

lemma fix_out_nondigit_True:
  "filter (\<lambda>l. \<not> isdigit l) (fix_out True n ls) =
   dropWhile (\<lambda>l. l = []) (filter (\<lambda>l. \<not> isdigit l) (map strip ls))"
proof (induction ls arbitrary: n)
  case Nil
  show ?case by simp
next
  case (Cons l rest)
  show ?case
  proof (cases "rest \<noteq> [] \<and> ts_match (strip (hd rest))")
    case True
    then obtain t rest' where r: "rest = t # rest'" and t: "ts_match (strip t)"
      by (cases rest) auto
    have "strip t \<noteq> []" "\<not> isdigit (strip t)"
      using t ts_match_nonempty ts_match_not_isdigit by blast+
    then show ?thesis using Cons r
      by (auto simp: fix_out_nondigit_False not_isdigit_Nil isdigit_str_nat)
  next
    case False
    then show ?thesis using Cons by (auto simp: fix_out_nondigit_False not_isdigit_Nil)
  qed
qed



lemma isdigit_nonempty: "isdigit s \<Longrightarrow> s \<noteq> []"
  by (simp add: isdigit_def)

lemma clean_out_snoc_digit:
  "isdigit (strip n) \<Longrightarrow> clean_out e (pre @ [n]) = clean_out e pre"
proof (induction pre arbitrary: e)
  case Nil
  then show ?case by (simp add: isdigit_nonempty)
next
  case (Cons p ps)
  show ?case
  proof (cases ps)
    case Nil
    then show ?thesis using Cons.prems
      by (simp add: isdigit_nonempty)
  next
    case (Cons q qs)
    then show ?thesis using Cons.IH [OF Cons.prems]
      by (simp del: clean_out.simps add: clean_out.simps(2) [of _ p])
  qed
qed

lemma clean_out_append_digit:
  "isdigit (strip n) \<Longrightarrow>
   clean_out e (pre @ n # rest) = clean_out e pre @ clean_out (e \<and> clean_out e pre = []) (n # rest)"
proof (induction pre arbitrary: e)
  case Nil
  then show ?case by simp
next
  case (Cons p ps)
  show ?case
  proof (cases ps)
    case Nil
    then show ?thesis using Cons.prems
      by (simp add: ts_match_not_isdigit isdigit_nonempty del: clean_out.simps(2)
            add: clean_out.simps(2) [of _ p])
  next
    case (Cons q qs)
    then show ?thesis using Cons.IH [OF Cons.prems]
      by (simp del: clean_out.simps add: clean_out.simps(2) [of _ p])
  qed
qed

lemma clean_out_run:
  "nums \<noteq> [] \<Longrightarrow> list_all (\<lambda>l. isdigit (strip l)) nums \<Longrightarrow> ts_match (strip t) \<Longrightarrow>
   clean_out e (nums @ t # post) = strip (last nums) # strip t # clean_out False post"
proof (induction nums)
  case Nil
  then show ?case by simp
next
  case (Cons x xs)
  have t: "strip t \<noteq> []" "\<not> isdigit (strip t)"
    using Cons.prems(3) ts_match_nonempty ts_match_not_isdigit by blast+
  show ?case
  proof (cases xs)
    case Nil
    then show ?thesis using Cons.prems t by (simp add: isdigit_nonempty)
  next
    case (Cons y ys)
    then show ?thesis using Cons.IH Cons.prems t
      by (simp add: isdigit_nonempty del: clean_out.simps add: clean_out.simps(2) [of _ x])
  qed
qed

lemma clean_out_last_not_digit:
  "clean_out e ls = [] \<or> \<not> isdigit (last (clean_out e ls))"
proof (induction ls arbitrary: e)
  case Nil
  show ?case by simp
next
  case (Cons l rest)
  show ?case
  proof (cases "rest \<noteq> [] \<and> ts_match (strip (hd rest))")
    case True
    then obtain t rest' where r: "rest = t # rest'" and t: "ts_match (strip t)"
      by (cases rest) auto
    have t': "strip t \<noteq> []" "\<not> isdigit (strip t)"
      using t ts_match_nonempty ts_match_not_isdigit by blast+
    have ne: "clean_out False rest \<noteq> []" using r t' by simp
    show ?thesis using Cons [of False] Cons [of e] ne by auto
  next
    case False
    then show ?thesis using Cons [of False] Cons [of e] by auto
  qed
qed

lemma length_clean_out: "length (clean_out e ls) \<le> length ls"
  by (induction ls arbitrary: e) (auto intro: le_SucI)

lemma set_clean_out: "set (clean_out e ls) \<subseteq> strip ` set ls"
  by (induction ls arbitrary: e) auto

lemma set_fix_out: "set (fix_out e n ls) \<subseteq> strip ` set ls \<union> range str_nat"
  by (induction ls arbitrary: e n) auto

lemma NL_free_clean_out:
  "l \<in> set (clean_out e (split_chr NL s)) \<Longrightarrow> NL \<notin> set l"
  using set_clean_out [of e "split_chr NL s"] split_chr_no_sep [of _ NL s] set_strip by blast

lemma NL_free_fix_out:
  "l \<in> set (fix_out e n (split_chr NL s)) \<Longrightarrow> NL \<notin> set l"
  using set_fix_out [of e n "split_chr NL s"] split_chr_no_sep [of _ NL s] set_strip
    NL_notin_str_nat by blast

lemma stripped_clean_out: "l \<in> set (clean_out e ls) \<Longrightarrow> stripped l"
  using set_clean_out [of e ls] stripped_strip by blast

lemma stripped_fix_out: "l \<in> set (fix_out e n ls) \<Longrightarrow> stripped l"
  using set_fix_out [of e n ls] stripped_strip stripped_str_nat by blast

lemma length_split_strip: "length (split_chr c (strip s)) \<le> length (split_chr c s)"
  by (simp add: length_split_chr count_strip)

lemma trim_snoc: "trim (xs @ [l]) = (if l = [] then trim xs else xs @ [l])"
  by (simp add: trim_def)

lemma trim_Nil: "trim [] = []"
  by (simp add: trim_def)

lemma set_trim: "set (trim xs) \<subseteq> set xs"
  unfolding trim_def by (auto dest: set_dropWhileD)

lemma trim_decomp: "\<exists>k. xs = trim xs @ replicate k []"
proof (induction xs rule: rev_induct)
  case Nil
  have "[] = trim [] @ replicate 0 []" by (simp add: trim_Nil)
  then show ?case by blast
next
  case (snoc l xs)
  show ?case
  proof (cases "l = []")
    case False
    then have "xs @ [l] = trim (xs @ [l]) @ replicate 0 []" by (simp add: trim_snoc)
    then show ?thesis by blast
  next
    case True
    obtain k where k: "xs = trim xs @ replicate k []" using snoc by blast
    have "replicate (Suc k) ([] :: ustr) = replicate k [] @ [[]]"
      by (simp add: replicate_append_same)
    then have "trim xs @ replicate (Suc k) [] = xs @ [[]]"
      using k by (metis append_assoc)
    then have "xs @ [l] = trim (xs @ [l]) @ replicate (Suc k) []"
      using True by (simp add: trim_snoc del: replicate_Suc)
    then show ?thesis by blast
  qed
qed

lemma filter_isdigit_trim: "filter isdigit (trim xs) = filter isdigit xs"
proof -
  obtain k where k: "xs = trim xs @ replicate k []" using trim_decomp by blast
  have "filter isdigit (trim xs @ replicate k []) = filter isdigit (trim xs)"
    by (simp add: not_isdigit_Nil)
  then show ?thesis using k by simp
qed

lemma trim_hd: "xs \<noteq> [] \<Longrightarrow> hd xs \<noteq> [] \<Longrightarrow> trim xs \<noteq> [] \<and> hd (trim xs) = hd xs"
proof (induction xs rule: rev_induct)
  case Nil
  then show ?case by simp
next
  case (snoc l xs)
  show ?case
  proof (cases "l = []")
    case False
    then show ?thesis by (simp add: trim_snoc)
  next
    case True
    then have "xs \<noteq> []" using snoc.prems by auto
    then show ?thesis using snoc True by (simp add: trim_snoc)
  qed
qed

lemma numbered_snoc_empty: "numbered n (xs @ [[]]) \<Longrightarrow> numbered n xs"
proof (induction xs arbitrary: n)
  case Nil
  show ?case by simp
next
  case (Cons l rest)
  show ?case
  proof (cases "isdigit l")
    case False
    then show ?thesis using Cons by simp
  next
    case True
    then have a: "l = str_nat n" "ts_match (hd (rest @ [[]]))" "numbered (n + 1) (rest @ [[]])"
      using Cons.prems by simp_all
    have "rest \<noteq> []" using a(2) ts_match_nonempty by (cases rest) auto
    then show ?thesis using True a Cons.IH by simp
  qed
qed

lemma numbered_trim: "numbered n xs \<Longrightarrow> numbered n (trim xs)"
proof (induction xs rule: rev_induct)
  case Nil
  then show ?case by (simp add: trim_Nil)
next
  case (snoc l xs)
  then show ?case by (auto simp: trim_snoc dest: numbered_snoc_empty)
qed

lemma numbered_fix_out: "numbered n (fix_out e n ls)"
proof (induction ls arbitrary: e n)
  case Nil
  show ?case by simp
next
  case (Cons l rest)
  show ?case
  proof (cases "rest \<noteq> [] \<and> ts_match (strip (hd rest))")
    case True
    then obtain t rest' where r: "rest = t # rest'" and t: "ts_match (strip t)"
      by (cases rest) auto
    have t': "strip t \<noteq> []" "\<not> isdigit (strip t)"
      using t ts_match_nonempty ts_match_not_isdigit by blast+
    have f: "fix_out False (n + 1) rest = strip t # fix_out False (n + 1) rest'"
      using r t' by simp
    show ?thesis using Cons [of n e] Cons [of n False] Cons [of "n + 1" False] True f t
      by (auto simp: isdigit_str_nat)
  next
    case False
    then show ?thesis using Cons [of n e] Cons [of n False] by auto
  qed
qed

lemma fix_out_numbered_id:
  "numbered n xs \<Longrightarrow> list_all stripped xs \<Longrightarrow> (e \<longrightarrow> xs = [] \<or> hd xs \<noteq> []) \<Longrightarrow> fix_out e n xs = xs"
proof (induction xs arbitrary: e n)
  case Nil
  show ?case by simp
next
  case (Cons l rest)
  have sl: "strip l = l" using Cons.prems(2) by (simp add: strip_id)
  have ne: "\<not> (l = [] \<and> e)" using Cons.prems(3) by auto
  show ?case
  proof (cases "isdigit l")
    case False
    then have "fix_out False n rest = rest" using Cons by simp
    then show ?thesis using False sl ne by auto
  next
    case True
    then have a: "l = str_nat n" "rest \<noteq> []" "ts_match (hd rest)" "numbered (n + 1) rest"
      using Cons.prems(1) by simp_all
    have "strip (hd rest) = hd rest" using a(2) Cons.prems(2) by (cases rest) (auto simp: strip_id)
    moreover have "fix_out False (n + 1) rest = rest" using a(4) Cons.prems(2) Cons.IH by simp
    ultimately show ?thesis using True sl ne a by auto
  qed
qed

lemma join_Cons: "xs \<noteq> [] \<Longrightarrow> join sep (x # xs) = x @ sep @ join sep xs"
  by (cases xs) auto

lemma join_snoc: "xs \<noteq> [] \<Longrightarrow> join sep (xs @ [x]) = join sep xs @ sep @ x"
proof (induction xs)
  case Nil
  then show ?case by simp
next
  case (Cons y ys)
  then show ?case by (cases ys) (auto simp: join_Cons)
qed

lemma hd_join: "xs \<noteq> [] \<Longrightarrow> hd xs \<noteq> [] \<Longrightarrow> join sep xs \<noteq> [] \<and> hd (join sep xs) = hd (hd xs)"
  by (cases xs; cases "tl xs") auto

lemma last_join:
  "xs \<noteq> [] \<Longrightarrow> last xs \<noteq> [] \<Longrightarrow> join sep xs \<noteq> [] \<and> last (join sep xs) = last (last xs)"
proof (cases xs rule: rev_cases)
  case Nil
  assume "xs \<noteq> []"
  then show ?thesis using Nil by simp
next
  case (snoc ys y)
  assume "last xs \<noteq> []"
  then have "y \<noteq> []" using snoc by simp
  then show ?thesis using snoc by (cases "ys = []") (auto simp: join_snoc)
qed

lemma rstrip_snoc_space: "isspace_chr c \<Longrightarrow> rstrip (s @ [c]) = rstrip s"
  by (simp add: rstrip_def)

lemma rstrip_join_trim: "list_all stripped xs \<Longrightarrow> rstrip (join [NL] xs) = join [NL] (trim xs)"
proof (induction xs rule: rev_induct)
  case Nil
  show ?case by (simp add: trim_Nil rstrip_def)
next
  case (snoc l xs)
  have ih: "rstrip (join [NL] xs) = join [NL] (trim xs)" using snoc by simp
  show ?case
  proof (cases "l = []")
    case True
    show ?thesis
    proof (cases "xs = []")
      case True
      then show ?thesis using \<open>l = []\<close> by (simp add: trim_def rstrip_def)
    next
      case False
      then have "join [NL] (xs @ [l]) = join [NL] xs @ [NL]" using True by (simp add: join_snoc)
      then show ?thesis using True ih by (simp add: trim_snoc rstrip_snoc_space isspace_NL)
    qed
  next
    case False
    then have "\<not> isspace_chr (last l)" using snoc.prems by (simp add: stripped_def)
    then have "\<not> isspace_chr (last (join [NL] (xs @ [l])))"
      using last_join [of "xs @ [l]" "[NL]"] False by simp
    then show ?thesis using False by (simp add: rstrip_id trim_snoc)
  qed
qed

lemma strip_join_trim:
  assumes "xs \<noteq> []" and "hd xs \<noteq> []" and "list_all stripped xs"
  shows "strip (join [NL] xs) = join [NL] (trim xs)"
proof -
  have "stripped (hd xs)" using assms(1,3) by (cases xs) auto
  then have "\<not> isspace_chr (hd (hd xs))" using assms(2) by (simp add: stripped_def)
  then have "\<not> isspace_chr (hd (join [NL] xs))" using hd_join [OF assms(1,2)] by simp
  then have "lstrip (join [NL] xs) = join [NL] xs" by (simp add: lstrip_id)
  then show ?thesis using assms(3) by (simp add: strip_def rstrip_join_trim)
qed

lemma fix_out_True_hd:
  "fix_out True n ls = [] \<or> hd (fix_out True n ls) \<noteq> []"
proof (induction ls arbitrary: n)
  case Nil
  show ?case by simp
next
  case (Cons l rest)
  then show ?case by (auto simp: str_nat_nonempty)
qed

lemma clean_out_True_hd:
  "clean_out True ls = [] \<or> hd (clean_out True ls) \<noteq> []"
proof (induction ls)
  case Nil
  show ?case by simp
next
  case (Cons l rest)
  then show ?case by auto
qed

lemma fix_fix_lines:
  fixes s :: ustr
  defines "out \<equiv> fix_out True 1 (split_chr NL (strip s))"
  shows "fix_out True 1 (split_chr NL (strip (join [NL] out))) = trim out"
    and "strip (join [NL] out) = join [NL] (trim out)"
proof -
  have st: "list_all stripped out"
    unfolding out_def list_all_iff using stripped_fix_out by blast
  have nl: "\<forall>l \<in> set out. NL \<notin> set l"
    unfolding out_def using NL_free_fix_out by blast
  have both: "fix_out True 1 (split_chr NL (strip (join [NL] out))) = trim out
      \<and> strip (join [NL] out) = join [NL] (trim out)"
  proof (cases "out = []")
    case True
    then show ?thesis by (simp add: strip_Nil trim_Nil)
  next
    case False
    then have hd: "hd out \<noteq> []" using fix_out_True_hd [of 1 "split_chr NL (strip s)"]
      by (simp add: out_def)
    have sj: "strip (join [NL] out) = join [NL] (trim out)"
      using False hd st by (rule strip_join_trim)
    have t: "trim out \<noteq> []" "hd (trim out) \<noteq> []" using trim_hd [OF False hd] hd by simp_all
    have "\<forall>l \<in> set (trim out). NL \<notin> set l" using nl set_trim by blast
    then have sp: "split_chr NL (join [NL] (trim out)) = trim out"
      using t(1) by (intro split_chr_join) auto
    have "numbered 1 (trim out)" unfolding out_def by (intro numbered_trim numbered_fix_out)
    moreover have "list_all stripped (trim out)"
      using st set_trim [of out] unfolding list_all_iff by blast
    ultimately have "fix_out True 1 (trim out) = trim out"
      using t(2) by (intro fix_out_numbered_id) auto
    then show ?thesis using sj sp by simp
  qed
  show "fix_out True 1 (split_chr NL (strip (join [NL] out))) = trim out" using both by blast
  show "strip (join [NL] out) = join [NL] (trim out)" using both by blast
qed

lemma filter_isdigit_split_join:
  "\<forall>l \<in> set xs. NL \<notin> set l \<Longrightarrow> filter isdigit (split_chr NL (join [NL] xs)) = filter isdigit xs"
proof (cases "xs = []")
  case True
  then show ?thesis by (simp add: not_isdigit_Nil)
next
  case False
  assume "\<forall>l \<in> set xs. NL \<notin> set l"
  then show ?thesis using False by (simp add: split_chr_join)
qed

lemma strip_keeps_last:
  assumes "l \<noteq> []" and "\<not> isspace_chr (last l)"
  shows "strip l \<noteq> [] \<and> last (strip l) = last l"
proof -
  have "last l \<in> set l" using assms(1) by simp
  then have ne: "dropWhile isspace_chr l \<noteq> []" using assms(2) by (auto simp: dropWhile_eq_Nil_conv)
  have "l = takeWhile isspace_chr l @ dropWhile isspace_chr l" by simp
  then have "last l = last (dropWhile isspace_chr l)" using ne by (metis last_appendR)
  then have "\<not> isspace_chr (last (lstrip l))" "lstrip l \<noteq> []" "last (lstrip l) = last l"
    using assms(2) ne by (simp_all add: lstrip_def)
  then show ?thesis by (simp add: strip_def rstrip_id)
qed

lemma last_split_chr:
  "s \<noteq> [] \<Longrightarrow> last s \<noteq> sep \<Longrightarrow>
   last (split_chr sep s) \<noteq> [] \<and> last (last (split_chr sep s)) = last s"
proof (induction s)
  case Nil
  then show ?case by simp
next
  case (Cons c cs)
  obtain l ls where sp: "split_chr sep cs = l # ls"
    using split_chr_nonempty [of sep cs] by (cases "split_chr sep cs") auto
  show ?case
  proof (cases "cs = []")
    case True
    then show ?thesis using Cons.prems by simp
  next
    case False
    then have ih: "last (split_chr sep cs) \<noteq> [] \<and> last (last (split_chr sep cs)) = last cs"
      using Cons by simp
    show ?thesis
    proof (cases "c = sep")
      case True
      then show ?thesis using ih False sp by simp
    next
      case ne: False
      show ?thesis
      proof (cases "ls = []")
        case True
        then show ?thesis using ih False sp ne by simp
      next
        case False
        then show ?thesis using ih \<open>cs \<noteq> []\<close> sp ne by simp
      qed
    qed
  qed
qed

lemma clean_out_snoc_keep:
  "strip l \<noteq> [] \<Longrightarrow> \<not> isdigit (strip l) \<Longrightarrow>
   clean_out e (pre @ [l]) \<noteq> [] \<and> last (clean_out e (pre @ [l])) = strip l"
proof (induction pre arbitrary: e)
  case Nil
  then show ?case by simp
next
  case (Cons p ps)
  have ih: "\<And>e. clean_out e (ps @ [l]) \<noteq> [] \<and> last (clean_out e (ps @ [l])) = strip l"
    using Cons by blast
  have "clean_out e (p # ps @ [l]) = clean_out e (ps @ [l])
      \<or> clean_out e (p # ps @ [l]) = clean_out False (ps @ [l])
      \<or> clean_out e (p # ps @ [l]) = strip p # clean_out False (ps @ [l])"
    by (simp del: clean_out.simps add: clean_out.simps(2) [of _ p])
  then show ?case using ih by auto
qed

lemma fix_out_snoc_keep:
  "strip l \<noteq> [] \<Longrightarrow> \<not> isdigit (strip l) \<Longrightarrow>
   fix_out e n (pre @ [l]) \<noteq> [] \<and> last (fix_out e n (pre @ [l])) = strip l"
proof (induction pre arbitrary: e n)
  case Nil
  then show ?case by simp
next
  case (Cons p ps)
  have ih: "\<And>e n. fix_out e n (ps @ [l]) \<noteq> [] \<and> last (fix_out e n (ps @ [l])) = strip l"
    using Cons by blast
  have "fix_out e n (p # ps @ [l]) = fix_out e n (ps @ [l])
      \<or> fix_out e n (p # ps @ [l]) = str_nat n # fix_out False (n + 1) (ps @ [l])
      \<or> fix_out e n (p # ps @ [l]) = strip p # fix_out False n (ps @ [l])"
    by (simp del: fix_out.simps add: fix_out.simps(2) [of _ _ p])
  then show ?case using ih by auto
qed

lemma join_nonempty_hd:
  assumes "join [NL] xs \<noteq> []" and "xs = [] \<or> hd xs \<noteq> []" and "\<forall>l \<in> set xs. stripped l"
  shows "\<not> isspace_chr (hd (join [NL] xs))"
proof -
  have ne: "xs \<noteq> []" using assms(1) by auto
  then have h: "hd xs \<noteq> []" using assms(2) by simp
  have "stripped (hd xs)" using ne assms(3) by simp
  then have "\<not> isspace_chr (hd (hd xs))" using h by (simp add: stripped_def)
  then show ?thesis using hd_join [OF ne h, of "[NL]"] by simp
qed

lemma last_line_kept:
  assumes "\<not> isdigit (strip (last (split_chr NL (strip content))))" and "strip content \<noteq> []"
  shows "\<exists>pre l. split_chr NL (strip content) = pre @ [l] \<and> strip l \<noteq> [] \<and> \<not> isdigit (strip l)
           \<and> \<not> isspace_chr (last (strip l))"
proof -
  let ?s = "strip content"
  have "\<not> isspace_chr (last ?s)" using stripped_strip [of content] assms(2) by (simp add: stripped_def)
  then have nl: "last ?s \<noteq> NL" using isspace_NL by auto
  define l where "l = last (split_chr NL ?s)"
  have l: "l \<noteq> []" "last l = last ?s"
    using last_split_chr [OF assms(2) nl] by (simp_all add: l_def)
  then have "\<not> isspace_chr (last l)" using \<open>\<not> isspace_chr (last ?s)\<close> by simp
  then have k: "strip l \<noteq> []" "last (strip l) = last l" using strip_keeps_last [OF l(1)] by simp_all
  have "split_chr NL ?s = butlast (split_chr NL ?s) @ [l]"
    using split_chr_nonempty [of NL ?s] by (simp add: l_def)
  then show ?thesis using k assms(1) \<open>\<not> isspace_chr (last l)\<close> unfolding l_def by metis
qed








lemma fix_out_append_digit:
  "isdigit (strip d) \<Longrightarrow>
   fix_out e k (pre @ d # rest)
   = fix_out e k pre
     @ fix_out (e \<and> fix_out e k pre = []) (k + length (filter isdigit (fix_out e k pre))) (d # rest)"
proof (induction pre arbitrary: e k)
  case Nil
  then show ?case by simp
next
  case (Cons p ps)
  note ih = Cons.IH [OF Cons.prems]
  have nts: "\<not> ts_match (strip d)" using Cons.prems ts_match_not_isdigit by blast
  have hd: "hd (ps @ d # rest) = (if ps = [] then d else hd ps)" by (cases ps) auto
  show ?case
  proof (cases "strip p = [] \<and> e")
    case True
    then show ?thesis using ih [of e k]
      by (auto simp del: fix_out.simps simp add: fix_out.simps(2) [of _ _ p])
  next
    case nb: False
    show ?thesis
    proof (cases "isdigit (strip p)")
      case False
      then show ?thesis using nb ih [of False k]
        by (auto simp del: fix_out.simps simp add: fix_out.simps(2) [of _ _ p])
    next
      case True
      show ?thesis
      proof (cases "ps \<noteq> [] \<and> ts_match (strip (hd ps))")
        case True
        then show ?thesis using nb \<open>isdigit (strip p)\<close> ih [of False "k + 1"] hd
          by (auto simp del: fix_out.simps simp add: fix_out.simps(2) [of _ _ p] isdigit_str_nat)
      next
        case False
        then show ?thesis using nb \<open>isdigit (strip p)\<close> ih [of e k] hd nts
          by (auto simp del: fix_out.simps simp add: fix_out.simps(2) [of _ _ p])
      qed
    qed
  qed
qed

lemma fix_out_snoc_digit:
  "isdigit (strip d) \<Longrightarrow> fix_out e k (pre @ [d]) = fix_out e k pre"
  using fix_out_append_digit [of d e k pre "[]"] by (simp add: isdigit_nonempty)

lemma clean_out_trailing_digits:
  "list_all (\<lambda>l. isdigit (strip l)) nums \<Longrightarrow> clean_out e (pre @ nums) = clean_out e pre"
proof (induction nums rule: rev_induct)
  case Nil
  show ?case by simp
next
  case (snoc d ds)
  then have "clean_out e ((pre @ ds) @ [d]) = clean_out e (pre @ ds)"
    by (intro clean_out_snoc_digit) simp
  then show ?case using snoc by simp
qed

lemma fix_out_trailing_digits:
  "list_all (\<lambda>l. isdigit (strip l)) nums \<Longrightarrow> fix_out e k (pre @ nums) = fix_out e k pre"
proof (induction nums rule: rev_induct)
  case Nil
  show ?case by simp
next
  case (snoc d ds)
  then have "fix_out e k ((pre @ ds) @ [d]) = fix_out e k (pre @ ds)"
    by (intro fix_out_snoc_digit) simp
  then show ?case using snoc by simp
qed

lemma clean_out_snoc_blank:
  "strip b = [] \<Longrightarrow>
   (e \<and> clean_out e (pre @ [b]) = [])
   \<or> (clean_out e (pre @ [b]) \<noteq> [] \<and> last (clean_out e (pre @ [b])) = [])"
proof (induction pre arbitrary: e)
  case Nil
  then show ?case by (simp add: not_isdigit_Nil)
next
  case (Cons p ps)
  note ih = Cons.IH [OF Cons.prems]
  have "(clean_out e (p # ps @ [b]) = clean_out e (ps @ [b]))
      \<or> clean_out e (p # ps @ [b]) = strip p # clean_out False (ps @ [b])"
    by (simp del: clean_out.simps add: clean_out.simps(2) [of _ p])
  then show ?case using ih [of e] ih [of False] by auto
qed

lemma fix_out_snoc_blank:
  "strip b = [] \<Longrightarrow>
   (e \<and> fix_out e k (pre @ [b]) = [])
   \<or> (fix_out e k (pre @ [b]) \<noteq> [] \<and> last (fix_out e k (pre @ [b])) = [])"
proof (induction pre arbitrary: e k)
  case Nil
  then show ?case by (simp add: not_isdigit_Nil)
next
  case (Cons p ps)
  note ih = Cons.IH [OF Cons.prems]
  have "(fix_out e k (p # ps @ [b]) = fix_out e k (ps @ [b]))
      \<or> fix_out e k (p # ps @ [b]) = str_nat k # fix_out False (k + 1) (ps @ [b])
      \<or> fix_out e k (p # ps @ [b]) = strip p # fix_out False k (ps @ [b])"
    by (simp del: fix_out.simps add: fix_out.simps(2) [of _ _ p])
  then show ?case using ih [of e k] ih [of False "k + 1"] ih [of False k] by auto
qed

lemma join_last_blank:
  assumes "xs \<noteq> []" and "last xs = []" and "hd xs \<noteq> []"
  shows "join [NL] xs \<noteq> [] \<and> last (join [NL] xs) = NL"
proof -
  obtain ys where x: "xs = ys @ [[]]" using assms(1,2) by (metis append_butlast_last_id)
  then have "ys \<noteq> []" using assms(3) by (cases ys) auto
  then show ?thesis using x by (simp add: join_snoc)
qed

section \<open>Evaluation on concrete texts\<close>

lemmas text_eval = u_def strip_def lstrip_def rstrip_def isspace_chr_ascii isdigit_chr_ascii
  isdecimal_chr_ascii isdigit_def ts_match_def timestamp_pattern_def timestamp_items_def
  str_nat.simps

lemmas ts_eval = extract_timestamps_from_content_def findall_def startswith_def
  replace_timestamps_with_originals_def replace_timestamps_try_def basename_def Let_def

lemmas path_eval = find_source_file_def source_file_by_suffix_def parse_path_def leading_seps_def
  path_parent_def path_name_def path_stem_def path_parents_def path_join_def path_str_def
  removesuffix_def endswith_def startswith_def str_replace.simps Let_def u_def

section \<open>The claims\<close>

text \<open>
  C9. Let the lines a pass walks be \<open>pre\<close>, a numeric-only line \<open>l\<close>, the line \<open>nxt\<close> and
  \<open>rest\<close>. Whenever the stripped \<open>nxt\<close> begins with the time-interval pattern (\<open>re.match\<close>
  anchors at the start only, so it is an interval \<open>iv\<close> followed by any text \<open>extra\<close>), the
  number is confirmed in both passes: the output of \<open>clean_srt_content\<close> holds the stripped
  \<open>l\<close> directly before the stripped \<open>nxt\<close>, after what the pass makes of \<open>pre\<close>, and the
  output of \<open>fix_srt_numbering\<close> holds the counter (one more than the numbers emitted for
  \<open>pre\<close>) in the same place. Both passes apply the same test: where it fails both drop
  \<open>l\<close> and go on with \<open>nxt\<close>.
\<close>

theorem cue_number_confirmed_by_prefix_match:
  assumes "split_chr NL (strip content) = pre @ l # nxt # rest" and "isdigit (strip l)"
  shows "(ts_match iv \<and> strip nxt = iv @ extra \<longrightarrow>
            (\<exists>after. split_chr NL (clean_srt_content content)
                      = clean_loop [] pre @ [strip l, iv @ extra] @ after)
          \<and> (\<exists>after. split_chr NL (fix_srt_numbering content)
                      = fix_loop [] 1 pre
                        @ [str_nat (Suc (length (filter isdigit (fix_loop [] 1 pre)))), iv @ extra]
                        @ after))
       \<and> (\<not> ts_match (strip nxt) \<longrightarrow>
            clean_srt_content content = join [NL] (clean_loop (clean_loop [] pre) (nxt # rest))
          \<and> fix_srt_numbering content
              = join [NL] (fix_loop (fix_loop [] 1 pre)
                             (Suc (length (filter isdigit (fix_loop [] 1 pre)))) (nxt # rest)))"
proof -
  let ?L = "split_chr NL (strip content)"
  let ?c = "clean_out True pre" and ?f = "fix_out True 1 pre"
  let ?k = "Suc (length (filter isdigit ?f))"
  have ne: "strip l \<noteq> []" using assms(2) by (rule isdigit_nonempty)
  have c: "clean_srt_content content = join [NL] (clean_out True ?L)"
    by (simp add: clean_srt_content_def clean_loop_out)
  have f: "fix_srt_numbering content = join [NL] (fix_out True 1 ?L)"
    by (simp add: fix_srt_numbering_def fix_loop_out)
  have cl: "clean_out True ?L = ?c @ clean_out (?c = []) (l # nxt # rest)"
    using clean_out_append_digit [OF assms(2), of True pre "nxt # rest"] assms(1) by simp
  have fl: "fix_out True 1 ?L = ?f @ fix_out (?f = []) ?k (l # nxt # rest)"
    using fix_out_append_digit [OF assms(2), of True 1 pre "nxt # rest"] assms(1) by simp
  have pos: "ts_match iv \<and> strip nxt = iv @ extra \<Longrightarrow>
      split_chr NL (clean_srt_content content) = ?c @ [strip l, iv @ extra] @ clean_out False rest
      \<and> split_chr NL (fix_srt_numbering content) = ?f @ [str_nat ?k, iv @ extra] @ fix_out False (Suc ?k) rest"
  proof -
    assume a: "ts_match iv \<and> strip nxt = iv @ extra"
    then have m: "ts_match (strip nxt)" by (simp add: ts_match_append)
    then have nd: "\<not> isdigit (strip nxt)" "strip nxt \<noteq> []"
      using ts_match_not_isdigit ts_match_nonempty by blast+
    have c1: "clean_out (?c = []) (l # nxt # rest) = strip l # strip nxt # clean_out False rest"
      using assms(2) ne m nd by simp
    have f1: "fix_out (?f = []) ?k (l # nxt # rest) = str_nat ?k # strip nxt # fix_out False (Suc ?k) rest"
      using assms(2) ne m nd by simp
    have "clean_out True ?L \<noteq> []" using cl c1 by simp
    then have sc: "split_chr NL (join [NL] (clean_out True ?L)) = clean_out True ?L"
      using NL_free_clean_out by (intro split_chr_join) auto
    have "fix_out True 1 ?L \<noteq> []" using fl f1 by simp
    then have sf: "split_chr NL (join [NL] (fix_out True 1 ?L)) = fix_out True 1 ?L"
      using NL_free_fix_out by (intro split_chr_join) auto
    show ?thesis using a c f sc sf cl fl c1 f1 by simp
  qed
  have neg: "\<not> ts_match (strip nxt) \<Longrightarrow>
      clean_out (?c = []) (l # nxt # rest) = clean_out (?c = []) (nxt # rest)
      \<and> fix_out (?f = []) ?k (l # nxt # rest) = fix_out (?f = []) ?k (nxt # rest)"
    using assms(2) ne
    by (simp del: clean_out.simps fix_out.simps
          add: clean_out.simps(2) [of _ l] fix_out.simps(2) [of _ _ l])
  show ?thesis
  proof (intro conjI impI)
    assume a: "ts_match iv \<and> strip nxt = iv @ extra"
    show "\<exists>after. split_chr NL (clean_srt_content content)
                      = clean_loop [] pre @ [strip l, iv @ extra] @ after"
      using pos [OF a] by (auto simp: clean_loop_out)
    show "\<exists>after. split_chr NL (fix_srt_numbering content)
                      = fix_loop [] 1 pre
                        @ [str_nat (Suc (length (filter isdigit (fix_loop [] 1 pre)))), iv @ extra]
                        @ after"
      using pos [OF a] by (auto simp: fix_loop_out)
  next
    assume a: "\<not> ts_match (strip nxt)"
    show "clean_srt_content content = join [NL] (clean_loop (clean_loop [] pre) (nxt # rest))"
      using neg [OF a] c cl by (simp add: clean_loop_out)
    show "fix_srt_numbering content
              = join [NL] (fix_loop (fix_loop [] 1 pre)
                             (Suc (length (filter isdigit (fix_loop [] 1 pre)))) (nxt # rest))"
      using neg [OF a] f fl by (simp add: fix_loop_out)
  qed
qed


theorem cue_number_confirmed_by_prefix_match_witness:
  "split_chr NL (strip (u ''Intro\<newline>7\<newline>00:00:01,000 --> 00:00:02,000 position:50% \<newline>Hi''))
     = [u ''Intro''] @ u ''7'' # u ''00:00:01,000 --> 00:00:02,000 position:50% '' # [u ''Hi'']
   \<and> isdigit (strip (u ''7''))
   \<and> ts_match (u ''00:00:01,000 --> 00:00:02,000'')
   \<and> strip (u ''00:00:01,000 --> 00:00:02,000 position:50% '')
       = u ''00:00:01,000 --> 00:00:02,000'' @ u '' position:50%''
   \<and> (\<exists>after. split_chr NL (clean_srt_content (u ''Intro\<newline>7\<newline>00:00:01,000 --> 00:00:02,000 position:50% \<newline>Hi''))
         = clean_loop [] [u ''Intro'']
           @ [strip (u ''7''), u ''00:00:01,000 --> 00:00:02,000'' @ u '' position:50%''] @ after)
   \<and> (\<exists>after. split_chr NL (fix_srt_numbering (u ''Intro\<newline>7\<newline>00:00:01,000 --> 00:00:02,000 position:50% \<newline>Hi''))
         = fix_loop [] 1 [u ''Intro'']
           @ [str_nat (Suc (length (filter isdigit (fix_loop [] 1 [u ''Intro''])))),
              u ''00:00:01,000 --> 00:00:02,000'' @ u '' position:50%''] @ after)
   \<and> clean_srt_content (u ''Intro\<newline>7\<newline>00:00:01,000 --> 00:00:02,000 position:50% \<newline>Hi'')
       = u ''Intro\<newline>7\<newline>00:00:01,000 --> 00:00:02,000 position:50%\<newline>Hi''
   \<and> fix_srt_numbering (u ''Intro\<newline>7\<newline>00:00:01,000 --> 00:00:02,000 position:50% \<newline>Hi'')
       = u ''Intro\<newline>1\<newline>00:00:01,000 --> 00:00:02,000 position:50%\<newline>Hi''
   \<and> split_chr NL (strip (u ''Intro\<newline>7\<newline>at 00:00:01,000 --> 00:00:02,000\<newline>Hi''))
     = [u ''Intro''] @ u ''7'' # u ''at 00:00:01,000 --> 00:00:02,000'' # [u ''Hi'']
   \<and> \<not> ts_match (strip (u ''at 00:00:01,000 --> 00:00:02,000''))
   \<and> clean_srt_content (u ''Intro\<newline>7\<newline>at 00:00:01,000 --> 00:00:02,000\<newline>Hi'')
       = u ''Intro\<newline>at 00:00:01,000 --> 00:00:02,000\<newline>Hi''
   \<and> fix_srt_numbering (u ''Intro\<newline>7\<newline>at 00:00:01,000 --> 00:00:02,000\<newline>Hi'')
       = u ''Intro\<newline>at 00:00:01,000 --> 00:00:02,000\<newline>Hi''"
proof -
  let ?C1 = "u ''Intro\<newline>7\<newline>00:00:01,000 --> 00:00:02,000 position:50% \<newline>Hi''"
  let ?C2 = "u ''Intro\<newline>7\<newline>at 00:00:01,000 --> 00:00:02,000\<newline>Hi''"
  let ?T = "u ''00:00:01,000 --> 00:00:02,000 position:50% ''"
  let ?IV = "u ''00:00:01,000 --> 00:00:02,000''"
  let ?EX = "u '' position:50%''"
  let ?N = "u ''at 00:00:01,000 --> 00:00:02,000''"
  have s1: "split_chr NL (strip ?C1) = [u ''Intro''] @ u ''7'' # ?T # [u ''Hi'']"
    by (simp add: text_eval)
  have s2: "split_chr NL (strip ?C2) = [u ''Intro''] @ u ''7'' # ?N # [u ''Hi'']"
    by (simp add: text_eval)
  have h1: "isdigit (strip (u ''7''))" by (simp add: text_eval)
  have h2: "ts_match ?IV" by (simp add: text_eval)
  have h3: "strip ?T = ?IV @ ?EX" by (simp add: text_eval)
  have h4: "\<not> ts_match (strip ?N)" by (simp add: text_eval)
  note t1 = cue_number_confirmed_by_prefix_match [OF s1 h1, of ?IV ?EX]
  note t2 = cue_number_confirmed_by_prefix_match [OF s2 h1]
  have p1: "\<exists>after. split_chr NL (clean_srt_content ?C1)
         = clean_loop [] [u ''Intro''] @ [strip (u ''7''), ?IV @ ?EX] @ after"
    using t1 h2 h3 by blast
  have p2: "\<exists>after. split_chr NL (fix_srt_numbering ?C1)
         = fix_loop [] 1 [u ''Intro'']
           @ [str_nat (Suc (length (filter isdigit (fix_loop [] 1 [u ''Intro''])))), ?IV @ ?EX] @ after"
    using t1 h2 h3 by blast
  have e1: "clean_srt_content ?C1 = u ''Intro\<newline>7\<newline>00:00:01,000 --> 00:00:02,000 position:50%\<newline>Hi''"
    by (simp add: clean_srt_content_def text_eval)
  have e2: "fix_srt_numbering ?C1 = u ''Intro\<newline>1\<newline>00:00:01,000 --> 00:00:02,000 position:50%\<newline>Hi''"
    by (simp add: fix_srt_numbering_def text_eval)
  have r1: "join [NL] (clean_loop (clean_loop [] [u ''Intro'']) [?N, u ''Hi''])
      = u ''Intro\<newline>at 00:00:01,000 --> 00:00:02,000\<newline>Hi''"
    by (simp add: text_eval)
  have r2: "join [NL] (fix_loop (fix_loop [] 1 [u ''Intro''])
        (Suc (length (filter isdigit (fix_loop [] 1 [u ''Intro''])))) [?N, u ''Hi''])
      = u ''Intro\<newline>at 00:00:01,000 --> 00:00:02,000\<newline>Hi''"
    by (simp add: text_eval)
  have "clean_srt_content ?C2 = join [NL] (clean_loop (clean_loop [] [u ''Intro'']) [?N, u ''Hi''])"
    using t2 h4 by blast
  also note r1
  finally have n1: "clean_srt_content ?C2 = u ''Intro\<newline>at 00:00:01,000 --> 00:00:02,000\<newline>Hi''" .
  have "fix_srt_numbering ?C2 = join [NL] (fix_loop (fix_loop [] 1 [u ''Intro''])
        (Suc (length (filter isdigit (fix_loop [] 1 [u ''Intro''])))) [?N, u ''Hi''])"
    using t2 h4 by blast
  also note r2
  finally have n2: "fix_srt_numbering ?C2 = u ''Intro\<newline>at 00:00:01,000 --> 00:00:02,000\<newline>Hi''" .
  show ?thesis using s1 h1 h2 h3 p1 p2 e1 e2 s2 h4 n1 n2 by blast
qed

text \<open>
  C7, as stated, fails: both passes append \<open>lines[i].strip()\<close>, not the line itself, so a
  non-numeric line with surrounding whitespace does not reach the output character for
  character. Here the indented second line loses its indentation in both passes.
\<close>

theorem nonnumeric_line_not_verbatim:
  "u ''  world'' \<in> set (split_chr NL (u ''Hello\<newline>  world''))
   \<and> \<not> isdigit (strip (u ''  world''))
   \<and> clean_srt_content (u ''Hello\<newline>  world'') = u ''Hello\<newline>world''
   \<and> fix_srt_numbering (u ''Hello\<newline>  world'') = u ''Hello\<newline>world''
   \<and> u ''  world'' \<notin> set (split_chr NL (clean_srt_content (u ''Hello\<newline>  world'')))
   \<and> u ''  world'' \<notin> set (split_chr NL (fix_srt_numbering (u ''Hello\<newline>  world'')))"
  by (simp add: text_eval clean_srt_content_def fix_srt_numbering_def)

text \<open>
  C7, amended. Every non-numeric line of the stripped document reaches the output of either
  pass with its own leading and trailing whitespace removed and otherwise unchanged, in
  order (a whitespace-only line becomes an empty line); the only non-numeric lines that are
  dropped are the blank ones before the first non-blank non-numeric line. Numeric lines are
  those for which \<open>isdigit\<close> holds after stripping.
\<close>

theorem nonnumeric_lines_pass_stripped:
  "clean_srt_content content = join [NL] (clean_loop [] (split_chr NL (strip content)))
   \<and> filter (\<lambda>l. \<not> isdigit l) (clean_loop [] (split_chr NL (strip content)))
       = dropWhile (\<lambda>l. l = []) (filter (\<lambda>l. \<not> isdigit l) (map strip (split_chr NL (strip content))))
   \<and> fix_srt_numbering content = join [NL] (fix_loop [] 1 (split_chr NL (strip content)))
   \<and> filter (\<lambda>l. \<not> isdigit l) (fix_loop [] 1 (split_chr NL (strip content)))
       = dropWhile (\<lambda>l. l = []) (filter (\<lambda>l. \<not> isdigit l) (map strip (split_chr NL (strip content))))"
  by (simp add: clean_srt_content_def fix_srt_numbering_def clean_loop_out fix_loop_out
        clean_out_nondigit_True fix_out_nondigit_True)

theorem nonnumeric_lines_pass_stripped_witness:
  "filter (\<lambda>l. \<not> isdigit l) (clean_loop [] (split_chr NL (strip (u ''\<newline> \<newline>7\<newline>  Hello \<newline>\<newline>world\<newline>''))))
     = [u ''Hello'', u '''', u ''world'']
   \<and> filter (\<lambda>l. \<not> isdigit l) (fix_loop [] 1 (split_chr NL (strip (u ''\<newline> \<newline>7\<newline>  Hello \<newline>\<newline>world\<newline>''))))
     = [u ''Hello'', u '''', u ''world'']"
proof -
  have "dropWhile (\<lambda>l. l = []) (filter (\<lambda>l. \<not> isdigit l)
          (map strip (split_chr NL (strip (u ''\<newline> \<newline>7\<newline>  Hello \<newline>\<newline>world\<newline>'')))))
        = [u ''Hello'', u '''', u ''world'']"
    by (simp add: text_eval)
  then show ?thesis
    using nonnumeric_lines_pass_stripped [of "u ''\<newline> \<newline>7\<newline>  Hello \<newline>\<newline>world\<newline>''"]
    by simp
qed

text \<open>
  C4. Let the lines the duplicate filter walks be \<open>pre\<close>, then a run \<open>nums\<close> of one or more
  numeric-only lines, then a line \<open>t\<close> that matches the time-interval pattern, then \<open>post\<close>.
  The buffer after \<open>t\<close> is what the filter makes of \<open>pre\<close> alone, followed by exactly one
  numeric line, the last of the run, and the interval; and what the filter makes of \<open>pre\<close>
  does not end in a numeric line. A numeric-only line that is the last line is dropped:
  the result is that of the lines before it. The output never has more lines than the
  input.
\<close>

theorem clean_srt_content_numeric_runs:
  "(nums \<noteq> [] \<and> list_all (\<lambda>l. isdigit (strip l)) nums \<and> ts_match (strip t)
      \<and> split_chr NL (strip content) = pre @ nums @ t # post
     \<longrightarrow> clean_srt_content content
           = join [NL] (clean_loop (clean_loop [] pre @ [strip (last nums), strip t]) post)
         \<and> (clean_loop [] pre = [] \<or> \<not> isdigit (last (clean_loop [] pre))))
   \<and> (isdigit (strip n) \<and> split_chr NL (strip content) = pre' @ [n]
     \<longrightarrow> clean_srt_content content = join [NL] (clean_loop [] pre'))
   \<and> length (split_chr NL (clean_srt_content content)) \<le> length (split_chr NL content)"
proof (intro conjI impI)
  assume a: "nums \<noteq> [] \<and> list_all (\<lambda>l. isdigit (strip l)) nums \<and> ts_match (strip t)
      \<and> split_chr NL (strip content) = pre @ nums @ t # post"
  then obtain x xs where n: "nums = x # xs" by (cases nums) auto
  then have dx: "isdigit (strip x)" using a by simp
  have "clean_out True (pre @ nums @ t # post)
        = clean_out True pre @ clean_out (True \<and> clean_out True pre = []) (nums @ t # post)"
    using clean_out_append_digit [OF dx, of True pre "xs @ t # post"] n by simp
  also have "\<dots> = clean_out True pre @ strip (last nums) # strip t # clean_out False post"
    using a by (simp add: clean_out_run)
  finally show "clean_srt_content content
           = join [NL] (clean_loop (clean_loop [] pre @ [strip (last nums), strip t]) post)"
    using a by (simp add: clean_srt_content_def clean_loop_out)
  show "clean_loop [] pre = [] \<or> \<not> isdigit (last (clean_loop [] pre))"
    using clean_out_last_not_digit [of True pre] by (simp add: clean_loop_out)
next
  assume "isdigit (strip n) \<and> split_chr NL (strip content) = pre' @ [n]"
  then show "clean_srt_content content = join [NL] (clean_loop [] pre')"
    by (simp add: clean_srt_content_def clean_loop_out clean_out_snoc_digit)
next
  let ?out = "clean_out True (split_chr NL (strip content))"
  have le: "length ?out \<le> length (split_chr NL content)"
    using length_clean_out [of True "split_chr NL (strip content)"]
      length_split_strip [of NL content] by linarith
  show "length (split_chr NL (clean_srt_content content)) \<le> length (split_chr NL content)"
  proof (cases "?out = []")
    case True
    then show ?thesis by (simp add: clean_srt_content_def clean_loop_out length_split_chr)
  next
    case False
    then have "split_chr NL (join [NL] ?out) = ?out"
      using NL_free_clean_out by (intro split_chr_join) auto
    then show ?thesis using le by (simp add: clean_srt_content_def clean_loop_out)
  qed
qed


theorem clean_srt_content_numeric_runs_witness:
  "[u ''1'', u ''1''] \<noteq> []
   \<and> list_all (\<lambda>l. isdigit (strip l)) [u ''1'', u ''1'']
   \<and> ts_match (strip (u ''00:00:01,000 --> 00:00:02,000''))
   \<and> split_chr NL (strip (u ''1\<newline>1\<newline>00:00:01,000 --> 00:00:02,000\<newline>Hello\<newline>3\<newline>''))
       = [] @ [u ''1'', u ''1''] @ u ''00:00:01,000 --> 00:00:02,000'' # [u ''Hello'', u ''3'']
   \<and> isdigit (strip (u ''3''))
   \<and> split_chr NL (strip (u ''1\<newline>1\<newline>00:00:01,000 --> 00:00:02,000\<newline>Hello\<newline>3\<newline>''))
       = [u ''1'', u ''1'', u ''00:00:01,000 --> 00:00:02,000'', u ''Hello''] @ [u ''3'']
   \<and> clean_srt_content (u ''1\<newline>1\<newline>00:00:01,000 --> 00:00:02,000\<newline>Hello\<newline>3\<newline>'')
       = u ''1\<newline>00:00:01,000 --> 00:00:02,000\<newline>Hello''
   \<and> length (split_chr NL (clean_srt_content (u ''1\<newline>1\<newline>00:00:01,000 --> 00:00:02,000\<newline>Hello\<newline>3\<newline>'')))
       \<le> length (split_chr NL (u ''1\<newline>1\<newline>00:00:01,000 --> 00:00:02,000\<newline>Hello\<newline>3\<newline>''))"
proof -
  let ?C = "u ''1\<newline>1\<newline>00:00:01,000 --> 00:00:02,000\<newline>Hello\<newline>3\<newline>''"
  let ?T = "u ''00:00:01,000 --> 00:00:02,000''"
  have h1: "list_all (\<lambda>l. isdigit (strip l)) [u ''1'', u ''1'']" by (simp add: text_eval)
  have h2: "ts_match (strip ?T)" by (simp add: text_eval)
  have h3: "split_chr NL (strip ?C) = [] @ [u ''1'', u ''1''] @ ?T # [u ''Hello'', u ''3'']"
    by (simp add: text_eval)
  have h4: "isdigit (strip (u ''3''))" by (simp add: text_eval)
  have h5: "split_chr NL (strip ?C) = [u ''1'', u ''1'', ?T, u ''Hello''] @ [u ''3'']"
    by (simp add: text_eval)
  have r: "join [NL] (clean_loop (clean_loop [] [] @ [strip (last [u ''1'', u ''1'']), strip ?T])
             [u ''Hello'', u ''3'']) = u ''1\<newline>00:00:01,000 --> 00:00:02,000\<newline>Hello''"
    by (simp add: text_eval)
  note t = clean_srt_content_numeric_runs [of "[u ''1'', u ''1'']" ?T ?C "[]" "[u ''Hello'', u ''3'']"
      "u ''3''" "[u ''1'', u ''1'', ?T, u ''Hello'']"]
  have c: "clean_srt_content ?C = u ''1\<newline>00:00:01,000 --> 00:00:02,000\<newline>Hello''"
    using t h1 h2 h3 r by simp
  have l: "length (split_chr NL (clean_srt_content ?C)) \<le> length (split_chr NL ?C)"
    using t by blast
  show ?thesis using h1 h2 h3 h4 h5 c l by blast
qed

text \<open>
  C5. The renumbering pass is idempotent on the numbering: the numeric lines of
  \<open>fix_srt_numbering (fix_srt_numbering s)\<close> are those of \<open>fix_srt_numbering s\<close>. In fact a
  second pass changes nothing but trailing newlines: it returns the first result stripped.
\<close>

theorem fix_srt_numbering_idempotent:
  "filter isdigit (split_chr NL (fix_srt_numbering (fix_srt_numbering s)))
     = filter isdigit (split_chr NL (fix_srt_numbering s))
   \<and> fix_srt_numbering (fix_srt_numbering s) = strip (fix_srt_numbering s)"
proof -
  let ?out = "fix_out True 1 (split_chr NL (strip s))"
  have f1: "fix_srt_numbering s = join [NL] ?out"
    by (simp add: fix_srt_numbering_def fix_loop_out)
  have f2: "fix_srt_numbering (fix_srt_numbering s) = join [NL] (trim ?out)"
    using fix_fix_lines(1) [of s] by (simp add: fix_srt_numbering_def fix_loop_out)
  have nl: "\<forall>l \<in> set ?out. NL \<notin> set l" using NL_free_fix_out by blast
  then have nl': "\<forall>l \<in> set (trim ?out). NL \<notin> set l" using set_trim by blast
  have "filter isdigit (split_chr NL (join [NL] (trim ?out))) = filter isdigit (trim ?out)"
    using nl' by (rule filter_isdigit_split_join)
  moreover have "filter isdigit (split_chr NL (join [NL] ?out)) = filter isdigit ?out"
    using nl by (rule filter_isdigit_split_join)
  ultimately show ?thesis using f1 f2 fix_fix_lines(2) [of s] by (simp add: filter_isdigit_trim)
qed




text \<open>
  C10, as stated, fails at the end of the output: when the last line is numeric-only it is
  dropped, and a blank line kept before it becomes the last line, so the joined result
  ends with a newline. Here the response breaks off after the number of a second cue.
\<close>

theorem output_ends_with_newline:
  "clean_srt_content (u ''1\<newline>00:00:01,000 --> 00:00:02,000\<newline>Hello\<newline>\<newline>2\<newline>'')
     = u ''1\<newline>00:00:01,000 --> 00:00:02,000\<newline>Hello\<newline>''
   \<and> fix_srt_numbering (u ''1\<newline>00:00:01,000 --> 00:00:02,000\<newline>Hello\<newline>\<newline>2\<newline>'')
     = u ''1\<newline>00:00:01,000 --> 00:00:02,000\<newline>Hello\<newline>''
   \<and> isspace_chr (last (clean_srt_content (u ''1\<newline>00:00:01,000 --> 00:00:02,000\<newline>Hello\<newline>\<newline>2\<newline>'')))
   \<and> isspace_chr (last (fix_srt_numbering (u ''1\<newline>00:00:01,000 --> 00:00:02,000\<newline>Hello\<newline>\<newline>2\<newline>'')))"
proof -
  have c: "clean_srt_content (u ''1\<newline>00:00:01,000 --> 00:00:02,000\<newline>Hello\<newline>\<newline>2\<newline>'')
     = u ''1\<newline>00:00:01,000 --> 00:00:02,000\<newline>Hello\<newline>''"
    by (simp add: clean_srt_content_def text_eval)
  have f: "fix_srt_numbering (u ''1\<newline>00:00:01,000 --> 00:00:02,000\<newline>Hello\<newline>\<newline>2\<newline>'')
     = u ''1\<newline>00:00:01,000 --> 00:00:02,000\<newline>Hello\<newline>''"
    by (simp add: fix_srt_numbering_def text_eval)
  have l: "isspace_chr (last (u ''1\<newline>00:00:01,000 --> 00:00:02,000\<newline>Hello\<newline>''))"
    by (simp add: text_eval)
  show ?thesis unfolding c f using l by simp
qed

text \<open>
  C10, amended. The output of either pass never begins with whitespace. Whether it ends
  with whitespace is decided by the last line of the stripped input that is not
  numeric-only (the numeric-only lines after it are dropped): when that line is not blank,
  the output is not empty and does not end with whitespace, so it carries no trailing
  newline; when every line is numeric-only, the output is empty; and when that line is
  blank, the output is empty or ends with whitespace.
\<close>

theorem output_whitespace_edges:
  "(clean_srt_content content \<noteq> [] \<longrightarrow> \<not> isspace_chr (hd (clean_srt_content content)))
   \<and> (fix_srt_numbering content \<noteq> [] \<longrightarrow> \<not> isspace_chr (hd (fix_srt_numbering content)))
   \<and> (split_chr NL (strip content) = pre @ x # nums \<and> strip x \<noteq> [] \<and> \<not> isdigit (strip x)
        \<and> list_all (\<lambda>l. isdigit (strip l)) nums
      \<longrightarrow> clean_srt_content content \<noteq> [] \<and> \<not> isspace_chr (last (clean_srt_content content))
        \<and> fix_srt_numbering content \<noteq> [] \<and> \<not> isspace_chr (last (fix_srt_numbering content)))
   \<and> (list_all (\<lambda>l. isdigit (strip l)) (split_chr NL (strip content))
      \<longrightarrow> clean_srt_content content = [] \<and> fix_srt_numbering content = [])
   \<and> (split_chr NL (strip content) = pre' @ b # nums' \<and> strip b = []
        \<and> list_all (\<lambda>l. isdigit (strip l)) nums'
      \<longrightarrow> (clean_srt_content content = [] \<or> isspace_chr (last (clean_srt_content content)))
        \<and> (fix_srt_numbering content = [] \<or> isspace_chr (last (fix_srt_numbering content))))"
proof -
  let ?L = "split_chr NL (strip content)"
  have c: "clean_srt_content content = join [NL] (clean_out True ?L)"
    by (simp add: clean_srt_content_def clean_loop_out)
  have f: "fix_srt_numbering content = join [NL] (fix_out True 1 ?L)"
    by (simp add: fix_srt_numbering_def fix_loop_out)
  have hc: "clean_srt_content content \<noteq> [] \<Longrightarrow> \<not> isspace_chr (hd (clean_srt_content content))"
    unfolding c using clean_out_True_hd [of ?L] stripped_clean_out
    by (intro join_nonempty_hd) auto
  have hf: "fix_srt_numbering content \<noteq> [] \<Longrightarrow> \<not> isspace_chr (hd (fix_srt_numbering content))"
    unfolding f using fix_out_True_hd [of 1 ?L] stripped_fix_out
    by (intro join_nonempty_hd) auto
  have keep: "clean_srt_content content \<noteq> [] \<and> \<not> isspace_chr (last (clean_srt_content content))
        \<and> fix_srt_numbering content \<noteq> [] \<and> \<not> isspace_chr (last (fix_srt_numbering content))"
    if a: "?L = pre @ x # nums \<and> strip x \<noteq> [] \<and> \<not> isdigit (strip x)
        \<and> list_all (\<lambda>l. isdigit (strip l)) nums"
  proof -
    have l: "?L = (pre @ [x]) @ nums" using a by simp
    have ns: "\<not> isspace_chr (last (strip x))"
      using a stripped_strip [of x] by (simp add: stripped_def)
    have "clean_out True ?L = clean_out True (pre @ [x])"
      unfolding l using a by (intro clean_out_trailing_digits) simp
    then have co: "clean_out True ?L \<noteq> [] \<and> last (clean_out True ?L) = strip x"
      using clean_out_snoc_keep [of x True pre] a by simp
    have "fix_out True 1 ?L = fix_out True 1 (pre @ [x])"
      unfolding l using a by (intro fix_out_trailing_digits) simp
    then have fo: "fix_out True 1 ?L \<noteq> [] \<and> last (fix_out True 1 ?L) = strip x"
      using fix_out_snoc_keep [of x True 1 pre] a by simp
    show ?thesis
      unfolding c f
      using last_join [of "clean_out True ?L" "[NL]"] last_join [of "fix_out True 1 ?L" "[NL]"]
        co fo a ns by simp
  qed
  have none: "clean_srt_content content = [] \<and> fix_srt_numbering content = []"
    if a: "list_all (\<lambda>l. isdigit (strip l)) ?L"
  proof -
    have "clean_out True ([] @ ?L) = clean_out True []" using a by (rule clean_out_trailing_digits)
    moreover have "fix_out True 1 ([] @ ?L) = fix_out True 1 []" using a by (rule fix_out_trailing_digits)
    ultimately show ?thesis by (simp add: c f)
  qed
  have blank: "(clean_srt_content content = [] \<or> isspace_chr (last (clean_srt_content content)))
        \<and> (fix_srt_numbering content = [] \<or> isspace_chr (last (fix_srt_numbering content)))"
    if a: "?L = pre' @ b # nums' \<and> strip b = [] \<and> list_all (\<lambda>l. isdigit (strip l)) nums'"
  proof -
    have l: "?L = (pre' @ [b]) @ nums'" using a by simp
    have co: "clean_out True ?L = clean_out True (pre' @ [b])"
      unfolding l using a by (intro clean_out_trailing_digits) simp
    have fo: "fix_out True 1 ?L = fix_out True 1 (pre' @ [b])"
      unfolding l using a by (intro fix_out_trailing_digits) simp
    have c1: "clean_srt_content content = [] \<or> isspace_chr (last (clean_srt_content content))"
    proof (cases "clean_out True ?L = []")
      case True
      then show ?thesis by (simp add: c)
    next
      case False
      then have "last (clean_out True ?L) = []"
        using clean_out_snoc_blank [of b True pre'] a co by auto
      moreover have "hd (clean_out True ?L) \<noteq> []" using clean_out_True_hd [of ?L] False by simp
      ultimately have "last (join [NL] (clean_out True ?L)) = NL"
        using False join_last_blank by blast
      then show ?thesis by (simp add: c isspace_NL)
    qed
    have f1: "fix_srt_numbering content = [] \<or> isspace_chr (last (fix_srt_numbering content))"
    proof (cases "fix_out True 1 ?L = []")
      case True
      then show ?thesis by (simp add: f)
    next
      case False
      then have "last (fix_out True 1 ?L) = []"
        using fix_out_snoc_blank [of b True 1 pre'] a fo by auto
      moreover have "hd (fix_out True 1 ?L) \<noteq> []" using fix_out_True_hd [of 1 ?L] False by simp
      ultimately have "last (join [NL] (fix_out True 1 ?L)) = NL"
        using False join_last_blank by blast
      then show ?thesis by (simp add: f isspace_NL)
    qed
    show ?thesis using c1 f1 by blast
  qed
  show ?thesis using hc hf keep none blank by blast
qed


theorem output_whitespace_edges_witness:
  "split_chr NL (strip (u '' 1\<newline>00:00:01,000 --> 00:00:02,000\<newline>Hello \<newline>3\<newline>''))
     = [u ''1'', u ''00:00:01,000 --> 00:00:02,000''] @ u ''Hello '' # [u ''3'']
   \<and> strip (u ''Hello '') \<noteq> [] \<and> \<not> isdigit (strip (u ''Hello ''))
   \<and> list_all (\<lambda>l. isdigit (strip l)) [u ''3'']
   \<and> clean_srt_content (u '' 1\<newline>00:00:01,000 --> 00:00:02,000\<newline>Hello \<newline>3\<newline>'') \<noteq> []
   \<and> \<not> isspace_chr (hd (clean_srt_content (u '' 1\<newline>00:00:01,000 --> 00:00:02,000\<newline>Hello \<newline>3\<newline>'')))
   \<and> \<not> isspace_chr (last (clean_srt_content (u '' 1\<newline>00:00:01,000 --> 00:00:02,000\<newline>Hello \<newline>3\<newline>'')))
   \<and> fix_srt_numbering (u '' 1\<newline>00:00:01,000 --> 00:00:02,000\<newline>Hello \<newline>3\<newline>'') \<noteq> []
   \<and> \<not> isspace_chr (hd (fix_srt_numbering (u '' 1\<newline>00:00:01,000 --> 00:00:02,000\<newline>Hello \<newline>3\<newline>'')))
   \<and> \<not> isspace_chr (last (fix_srt_numbering (u '' 1\<newline>00:00:01,000 --> 00:00:02,000\<newline>Hello \<newline>3\<newline>'')))
   \<and> list_all (\<lambda>l. isdigit (strip l)) (split_chr NL (strip (u ''7\<newline>8'')))
   \<and> clean_srt_content (u ''7\<newline>8'') = [] \<and> fix_srt_numbering (u ''7\<newline>8'') = []
   \<and> split_chr NL (strip (u ''1\<newline>00:00:01,000 --> 00:00:02,000\<newline>Hello\<newline>\<newline>2\<newline>''))
     = [u ''1'', u ''00:00:01,000 --> 00:00:02,000'', u ''Hello''] @ [] # [u ''2'']
   \<and> isspace_chr (last (clean_srt_content (u ''1\<newline>00:00:01,000 --> 00:00:02,000\<newline>Hello\<newline>\<newline>2\<newline>'')))
   \<and> isspace_chr (last (fix_srt_numbering (u ''1\<newline>00:00:01,000 --> 00:00:02,000\<newline>Hello\<newline>\<newline>2\<newline>'')))"
proof -
  let ?A = "u '' 1\<newline>00:00:01,000 --> 00:00:02,000\<newline>Hello \<newline>3\<newline>''"
  let ?B = "u ''7\<newline>8''"
  let ?C = "u ''1\<newline>00:00:01,000 --> 00:00:02,000\<newline>Hello\<newline>\<newline>2\<newline>''"
  have a1: "split_chr NL (strip ?A) = [u ''1'', u ''00:00:01,000 --> 00:00:02,000''] @ u ''Hello '' # [u ''3'']"
    by (simp add: text_eval)
  have a2: "strip (u ''Hello '') \<noteq> []" "\<not> isdigit (strip (u ''Hello ''))"
    by (simp_all add: text_eval)
  have a3: "list_all (\<lambda>l. isdigit (strip l)) [u ''3'']" by (simp add: text_eval)
  have b1: "list_all (\<lambda>l. isdigit (strip l)) (split_chr NL (strip ?B))" by (simp add: text_eval)
  have c1: "split_chr NL (strip ?C) = [u ''1'', u ''00:00:01,000 --> 00:00:02,000'', u ''Hello''] @ [] # [u ''2'']"
    by (simp add: text_eval)
  have c2: "strip [] = []" by (rule strip_Nil)
  have c3: "list_all (\<lambda>l. isdigit (strip l)) [u ''2'']" by (simp add: text_eval)
  have c4: "clean_srt_content ?C \<noteq> []" "fix_srt_numbering ?C \<noteq> []"
    by (simp_all add: clean_srt_content_def fix_srt_numbering_def text_eval)
  note tA = output_whitespace_edges [of ?A "[u ''1'', u ''00:00:01,000 --> 00:00:02,000'']"
      "u ''Hello ''" "[u ''3'']"]
  note tB = output_whitespace_edges [of ?B]
  note tC = output_whitespace_edges [of ?C _ _ _ "[u ''1'', u ''00:00:01,000 --> 00:00:02,000'', u ''Hello'']"
      "[]" "[u ''2'']"]
  have rA: "clean_srt_content ?A \<noteq> [] \<and> \<not> isspace_chr (hd (clean_srt_content ?A))
      \<and> \<not> isspace_chr (last (clean_srt_content ?A))
      \<and> fix_srt_numbering ?A \<noteq> [] \<and> \<not> isspace_chr (hd (fix_srt_numbering ?A))
      \<and> \<not> isspace_chr (last (fix_srt_numbering ?A))"
    using tA a1 a2 a3 by blast
  have rB: "clean_srt_content ?B = [] \<and> fix_srt_numbering ?B = []" using tB b1 by blast
  have rC: "isspace_chr (last (clean_srt_content ?C)) \<and> isspace_chr (last (fix_srt_numbering ?C))"
    using tC c1 c2 c3 c4 by blast
  show ?thesis using a1 a2 a3 rA b1 rB c1 rC by blast
qed

text \<open>
  C3, as stated, fails: every path on which restoration cannot proceed prints a message,
  and the \<open>print\<close> in the \<open>except\<close> handler is outside any \<open>try\<close>. On a standard output that
  cannot encode the messages (each starts with a warning sign), \<open>print\<close> raises
  \<open>UnicodeEncodeError\<close>; on all three paths the function then ends with that exception
  instead of returning the processed content.
\<close>

theorem restoration_escapes_when_print_fails:
  "replace_timestamps_with_originals (\<lambda>m. Some UnicodeEncodeError) (\<lambda>p. Inl OSError)
       (u ''1\<newline>00:00:01,000 --> 00:00:02,000\<newline>A'') (u ''/data/show/ep1.srt'')
     = Inl UnicodeEncodeError
   \<and> replace_timestamps_with_originals (\<lambda>m. Some UnicodeEncodeError) (\<lambda>p. Inr (u ''no intervals''))
       (u ''1\<newline>00:00:01,000 --> 00:00:02,000\<newline>A'') (u ''/data/show/ep1.srt'')
     = Inl UnicodeEncodeError
   \<and> replace_timestamps_with_originals (\<lambda>m. Some UnicodeEncodeError)
       (\<lambda>p. Inr (u ''1\<newline>00:00:05,000 --> 00:00:06,000\<newline>A\<newline>2\<newline>00:00:07,000 --> 00:00:08,000\<newline>B''))
       (u ''1\<newline>00:00:01,000 --> 00:00:02,000\<newline>A'') (u ''/data/show/ep1.srt'')
     = Inl UnicodeEncodeError"
  by (simp add: ts_eval text_eval)

text \<open>
  C3, amended. Whenever restoration cannot proceed (the source file cannot be read, it
  holds no time interval, or the two interval lists differ in length),
  \<open>replace_timestamps_with_originals\<close> returns the processed content unchanged provided
  the message of the \<open>except\<close> handler can be printed; and the only exception that can
  leave the function is one raised by that \<open>print\<close>.
\<close>

theorem restoration_soft_failure:
  "(read_text source_file_path = Inl e
    \<or> read_text source_file_path = Inr source_content
        \<and> (extract_timestamps_from_content source_content = []
           \<or> length (extract_timestamps_from_content source_content)
               \<noteq> length (extract_timestamps_from_content processed_content)))
   \<longrightarrow> ((\<forall>x. print_out (CouldNotReplace x) = None)
         \<longrightarrow> replace_timestamps_with_originals print_out read_text processed_content source_file_path
             = Inr processed_content)
     \<and> (replace_timestamps_with_originals print_out read_text processed_content source_file_path
           = Inr processed_content
        \<or> (\<exists>x e'. print_out (CouldNotReplace x) = Some e'
              \<and> replace_timestamps_with_originals print_out read_text processed_content
                   source_file_path = Inl e'))"
  by (auto simp: replace_timestamps_with_originals_def replace_timestamps_try_def Let_def
        split: sum.splits option.splits)

theorem restoration_soft_failure_witness:
  "replace_timestamps_with_originals (\<lambda>m. None) (\<lambda>p. Inl OSError)
       (u ''1\<newline>00:00:01,000 --> 00:00:02,000\<newline>A'') (u ''/data/show/ep1.srt'')
     = Inr (u ''1\<newline>00:00:01,000 --> 00:00:02,000\<newline>A'')
   \<and> extract_timestamps_from_content (u ''no intervals'') = []
   \<and> replace_timestamps_with_originals (\<lambda>m. None) (\<lambda>p. Inr (u ''no intervals''))
       (u ''1\<newline>00:00:01,000 --> 00:00:02,000\<newline>A'') (u ''/data/show/ep1.srt'')
     = Inr (u ''1\<newline>00:00:01,000 --> 00:00:02,000\<newline>A'')
   \<and> length (extract_timestamps_from_content
         (u ''1\<newline>00:00:05,000 --> 00:00:06,000\<newline>A\<newline>2\<newline>00:00:07,000 --> 00:00:08,000\<newline>B''))
       \<noteq> length (extract_timestamps_from_content (u ''1\<newline>00:00:01,000 --> 00:00:02,000\<newline>A''))
   \<and> replace_timestamps_with_originals (\<lambda>m. None)
       (\<lambda>p. Inr (u ''1\<newline>00:00:05,000 --> 00:00:06,000\<newline>A\<newline>2\<newline>00:00:07,000 --> 00:00:08,000\<newline>B''))
       (u ''1\<newline>00:00:01,000 --> 00:00:02,000\<newline>A'') (u ''/data/show/ep1.srt'')
     = Inr (u ''1\<newline>00:00:01,000 --> 00:00:02,000\<newline>A'')
   \<and> replace_timestamps_with_originals
       (\<lambda>m. case m of CouldNotReplace x \<Rightarrow> None | _ \<Rightarrow> Some UnicodeEncodeError)
       (\<lambda>p. Inr (u ''no intervals''))
       (u ''1\<newline>00:00:01,000 --> 00:00:02,000\<newline>A'') (u ''/data/show/ep1.srt'')
     = Inr (u ''1\<newline>00:00:01,000 --> 00:00:02,000\<newline>A'')"
proof -
  let ?P = "u ''1\<newline>00:00:01,000 --> 00:00:02,000\<newline>A''"
  let ?S = "u ''1\<newline>00:00:05,000 --> 00:00:06,000\<newline>A\<newline>2\<newline>00:00:07,000 --> 00:00:08,000\<newline>B''"
  let ?p = "u ''/data/show/ep1.srt''"
  let ?ok = "\<lambda>m :: message. None :: py_exn option"
  let ?handler_only = "\<lambda>m. case m of CouldNotReplace x \<Rightarrow> None | _ \<Rightarrow> Some UnicodeEncodeError"
  have h0: "\<forall>x. ?ok (CouldNotReplace x) = None" by simp
  have h0': "\<forall>x. ?handler_only (CouldNotReplace x) = None" by simp
  have h2: "extract_timestamps_from_content (u ''no intervals'') = []"
    by (simp add: ts_eval text_eval)
  have h3: "length (extract_timestamps_from_content ?S) \<noteq> length (extract_timestamps_from_content ?P)"
    by (simp add: ts_eval text_eval)
  have a: "replace_timestamps_with_originals ?ok (\<lambda>p. Inl OSError) ?P ?p = Inr ?P"
    using restoration_soft_failure [of "\<lambda>p. Inl OSError" ?p OSError _ ?P ?ok] h0 by simp
  have b: "replace_timestamps_with_originals ?ok (\<lambda>p. Inr (u ''no intervals'')) ?P ?p = Inr ?P"
    using restoration_soft_failure [of "\<lambda>p. Inr (u ''no intervals'')" ?p _ "u ''no intervals''" ?P ?ok]
      h0 h2 by simp
  have c: "replace_timestamps_with_originals ?ok (\<lambda>p. Inr ?S) ?P ?p = Inr ?P"
    using restoration_soft_failure [of "\<lambda>p. Inr ?S" ?p _ ?S ?P ?ok] h0 h3 by simp
  have d: "replace_timestamps_with_originals ?handler_only (\<lambda>p. Inr (u ''no intervals'')) ?P ?p = Inr ?P"
    using restoration_soft_failure [of "\<lambda>p. Inr (u ''no intervals'')" ?p _ "u ''no intervals''" ?P
        ?handler_only] h0' h2 by simp
  show ?thesis using a h2 b h3 c d by blast
qed

text \<open>
  C1, evaluated where it fails, on a standard output that prints every message. Source and
  processed content hold two intervals each, and the first interval of the source is the
  text of the second interval of the processed content. The first replacement writes it
  into cue 1; the second replacement,
  \<open>replace(processed_ts, source_ts, 1)\<close>, then finds its first occurrence there, in the text
  just written, and not in cue 2. The result holds the intervals of the source in the
  wrong order: positional restoration would give cue 1 the first and cue 2 the second.
\<close>

theorem replace_timestamps_swaps_intervals:
  "replace_timestamps_with_originals (\<lambda>m. None)
     (\<lambda>p. Inr (u ''1\<newline>00:00:01,000 --> 00:00:02,000\<newline>A\<newline>2\<newline>00:00:03,000 --> 00:00:04,000\<newline>B''))
     (u ''1\<newline>00:00:00,000 --> 00:00:01,000\<newline>A\<newline>2\<newline>00:00:01,000 --> 00:00:02,000\<newline>B'')
     (u ''/data/show/ep1.srt'')
   = Inr (u ''1\<newline>00:00:03,000 --> 00:00:04,000\<newline>A\<newline>2\<newline>00:00:01,000 --> 00:00:02,000\<newline>B'')
   \<and> extract_timestamps_from_content
       (u ''1\<newline>00:00:01,000 --> 00:00:02,000\<newline>A\<newline>2\<newline>00:00:03,000 --> 00:00:04,000\<newline>B'')
     = [u ''00:00:01,000 --> 00:00:02,000'', u ''00:00:03,000 --> 00:00:04,000'']
   \<and> extract_timestamps_from_content
       (u ''1\<newline>00:00:00,000 --> 00:00:01,000\<newline>A\<newline>2\<newline>00:00:01,000 --> 00:00:02,000\<newline>B'')
     = [u ''00:00:00,000 --> 00:00:01,000'', u ''00:00:01,000 --> 00:00:02,000'']
   \<and> extract_timestamps_from_content
       (u ''1\<newline>00:00:03,000 --> 00:00:04,000\<newline>A\<newline>2\<newline>00:00:01,000 --> 00:00:02,000\<newline>B'')
     = [u ''00:00:03,000 --> 00:00:04,000'', u ''00:00:01,000 --> 00:00:02,000'']"
  by (simp add: ts_eval text_eval)

text \<open>
  C6, evaluated where it fails. The response numbers its first cue 1, so no \<open>1\<close> is missing;
  \<open>subtitle_found\<close> is set only where a \<open>1\<close> is inserted, so it is still false at the
  second cue number, and a \<open>1\<close> is inserted before the \<open>2\<close>.
\<close>

theorem save_single_inserts_second_one:
  "save_single_transliterated_file
     (u ''1\<newline>00:00:01,000 --> 00:00:02,000\<newline>Hello\<newline>2\<newline>00:00:03,000 --> 00:00:04,000\<newline>World'')
     (u ''Show'')
   = u ''1\<newline>00:00:01,000 --> 00:00:02,000\<newline>Hello\<newline>1\<newline>2\<newline>00:00:03,000 --> 00:00:04,000\<newline>World''"
  by (simp add: save_single_transliterated_file_def startswith_def text_eval)

text \<open>
  C8, evaluated where it fails. The stem holds \<open>_telugu\<close> twice; \<open>replace\<close> removes both
  occurrences, where stripping the trailing suffix removes the last one only. The file
  that \<open>translate.py\<close> wrote \<open>ep1_telugu_dub_telugu.srt\<close> for is \<open>ep1_telugu_dub.srt\<close>.
\<close>

theorem find_source_file_removes_inner_suffix:
  "find_source_file (u ''/data/processed/show/ep1_telugu_dub_telugu.srt'') = Inr (u ''/data/show/ep1_dub.srt'')
   \<and> source_file_by_suffix (u ''/data/processed/show/ep1_telugu_dub_telugu.srt'')
       = Inr (u ''/data/show/ep1_telugu_dub.srt'')"
  by (simp add: path_eval)

end
